theory Spec2Isabelle
  imports Main "HOL-Library.Word"
begin

section \<open>Data model of the uploader (useUploaderConnections)\<close>

text \<open>
  The uploader side of the transfer protocol lives in the hook
  \<^verbatim>\<open>useUploaderConnections(peer, files, password)\<close>. Numbers of the wire protocol
  (offsets, sizes) are modelled as \<open>int\<close>: the code compares and adds them and never
  relies on a fractional value. File contents are byte lists; \<^verbatim>\<open>file.size\<close> is the
  length of the content, as for a Blob.
\<close>

type_synonym byte = "8 word"

record UploadedFile =
  name :: string
  type' :: string
  content :: "byte list"

definition file_size :: "UploadedFile \<Rightarrow> int" where
  "file_size f = int (length (content f))"

text \<open>
  Modelled from the spec: \<^verbatim>\<open>getFileName\<close> of \<^verbatim>\<open>../fs\<close> is not among the sources; the
  spec's file descriptor has one \<open>name\<close>, which is what the function returns here.
\<close>

definition getFileName :: "UploadedFile \<Rightarrow> string" where
  "getFileName f = name f"

record ClientInfo =
  browserName :: string
  browserVersion :: string
  osName :: string
  osVersion :: string
  mobileVendor :: "string option"
  mobileModel :: "string option"

record FileInfo =
  fi_fileName :: string
  fi_size :: int
  fi_type :: string

text \<open>The closed message union (\<^verbatim>\<open>MessageType\<close>); \<open>DoneMsg\<close> is \<^verbatim>\<open>MessageType.Done\<close>.\<close>

datatype Message =
    RequestInfo ClientInfo
  | PasswordRequired "string option"
  | UsePassword string
  | Info "FileInfo list"
  | Start string int
  | Pause
  | Chunk string int "byte list" bool
  | DoneMsg
  | Report

datatype UploaderConnectionStatus =
    Pending | Authenticating | InvalidPassword | Ready | Uploading | Paused | Done | Closed

text \<open>
  \<^verbatim>\<open>currentFileProgress\<close> is a quotient of two numbers in the source; it is kept as the
  pair (numerator, denominator), so that no floating-point division is needed.
\<close>

record UploaderConnection =
  status :: UploaderConnectionStatus
  dataConnection :: nat
  completedFiles :: nat
  totalFiles :: nat
  currentFileProgress :: "int \<times> int"
  clientInfo :: "ClientInfo option"
  uploadingFileName :: "string option"
  uploadingOffset :: "int option"

datatype error = InvalidFileOffset | DecodeError

section \<open>Chunking\<close>

definition MAX_CHUNK_SIZE :: int where
  "MAX_CHUNK_SIZE = 128 * 1024"

text \<open>
  \<^verbatim>\<open>files.find((file) => getFileName(file) === fileName && offset <= file.size)\<close>,
  throwing when nothing is found.
\<close>

definition validateOffset :: "UploadedFile list \<Rightarrow> string \<Rightarrow> int \<Rightarrow> error + UploadedFile" where
  "validateOffset files fileName offset =
     (case find (\<lambda>file. getFileName file = fileName \<and> offset \<le> file_size file) files of
        None \<Rightarrow> Inl InvalidFileOffset
      | Some validFile \<Rightarrow> Inr validFile)"

text \<open>
  \<^verbatim>\<open>Blob.slice(start, end)\<close> of the File API: a negative bound counts from the end of the
  blob, both bounds are clamped to the blob, and an empty span gives the empty blob.
\<close>

definition blob_slice :: "byte list \<Rightarrow> int \<Rightarrow> int \<Rightarrow> byte list" where
  "blob_slice bs start end' =
     (let sz = int (length bs);
          relativeStart = (if start < 0 then max (sz + start) 0 else min start sz);
          relativeEnd = (if end' < 0 then max (sz + end') 0 else min end' sz);
          span = max (relativeEnd - relativeStart) 0
      in take (nat span) (drop (nat relativeStart) bs))"

text \<open>
  The variables a \<^verbatim>\<open>Start\<close> message closes over: \<^verbatim>\<open>fileName\<close>, the validated \<^verbatim>\<open>file\<close> and
  the mutable \<^verbatim>\<open>offset\<close>.
\<close>

record Transfer =
  t_fileName :: string
  t_file :: UploadedFile
  t_offset :: int

text \<open>The body of the timeout callback up to \<^verbatim>\<open>conn.send(request)\<close>: the message, and \<^verbatim>\<open>end\<close>.\<close>

definition chunk_end :: "Transfer \<Rightarrow> int" where
  "chunk_end tr = min (file_size (t_file tr)) (t_offset tr + MAX_CHUNK_SIZE)"

definition chunk_final :: "Transfer \<Rightarrow> bool" where
  "chunk_final tr = (chunk_end tr - t_offset tr < MAX_CHUNK_SIZE)"

definition chunk_request :: "Transfer \<Rightarrow> Message" where
  "chunk_request tr =
     Chunk (t_fileName tr) (t_offset tr)
       (blob_slice (content (t_file tr)) (t_offset tr) (chunk_end tr)) (chunk_final tr)"

text \<open>
  The emission loop when no other event intervenes: each callback sends one chunk, sets
  \<^verbatim>\<open>offset = end\<close> and, unless the chunk was final, schedules itself again.
\<close>

function chunks :: "Transfer \<Rightarrow> Message list" where
  "chunks tr =
     chunk_request tr #
       (if chunk_final tr then [] else chunks (tr\<lparr>t_offset := chunk_end tr\<rparr>))"
  by pat_completeness auto
termination
  by (relation "measure (\<lambda>tr. nat (file_size (t_file tr) - t_offset tr))")
     (auto simp: chunk_final_def chunk_end_def MAX_CHUNK_SIZE_def min_def split: if_splits)

declare chunks.simps [simp del]

section \<open>The per-connection protocol engine\<close>

text \<open>
  Modelled from the spec: \<^verbatim>\<open>decodeMessage\<close> of \<^verbatim>\<open>../messages\<close> is not among the sources.
  Per the spec's codec it either yields one message of the union or throws; the data
  arriving on the channel is therefore a well-formed message or something malformed.
\<close>

datatype Raw = Encoded Message | Malformed

fun decodeMessage :: "Raw \<Rightarrow> error + Message" where
  "decodeMessage (Encoded m) = Inr m"
| "decodeMessage Malformed = Inl DecodeError"

text \<open>
  What the uploader does to a channel: a message handed to an open channel, or closing
  it. Everything one invocation of \<^verbatim>\<open>listener\<close> keeps for its connection is in
  \<open>ConnState\<close>: the connection's record in the \<^verbatim>\<open>connections\<close> state (\<open>draft\<close>), whether
  the data channel is open, the variable \<^verbatim>\<open>sendChunkTimeout\<close>, and the callbacks handed
  to \<^verbatim>\<open>setTimeout\<close> that have neither run nor been cleared (\<open>scheduled\<close>, each with the
  variables of the \<^verbatim>\<open>Start\<close> it belongs to). State updaters passed to
  \<^verbatim>\<open>updateConnection\<close> are run once, at the place of the call.

  The data channel follows PeerJS: \<^verbatim>\<open>send\<close> on a closed channel delivers nothing,
  \<^verbatim>\<open>close\<close> on an open channel marks it closed and runs the \<^verbatim>\<open>close\<close> handler, and a
  closed channel delivers no more data.
\<close>

datatype Action = Send Message | Close

record ConnState =
  draft :: UploaderConnection
  isOpen :: bool
  sendChunkTimeout :: "nat option"
  scheduled :: "(nat \<times> Transfer) list"
  nextTimeout :: nat

definition conn_send :: "Message \<Rightarrow> ConnState \<Rightarrow> Action list" where
  "conn_send m cs = (if isOpen cs then [Send m] else [])"

definition setTimeout :: "Transfer \<Rightarrow> ConnState \<Rightarrow> ConnState" where
  "setTimeout tr cs =
     cs\<lparr>sendChunkTimeout := Some (nextTimeout cs),
        scheduled := scheduled cs @ [(nextTimeout cs, tr)],
        nextTimeout := Suc (nextTimeout cs)\<rparr>"

definition clearTimeout :: "nat \<Rightarrow> ConnState \<Rightarrow> ConnState" where
  "clearTimeout t cs = cs\<lparr>scheduled := filter (\<lambda>(i, tr). i \<noteq> t) (scheduled cs)\<rparr>"

definition onClose :: "ConnState \<Rightarrow> ConnState" where
  "onClose cs =
     (let cs1 = (case sendChunkTimeout cs of Some t \<Rightarrow> clearTimeout t cs | None \<Rightarrow> cs)
      in cs1\<lparr>draft :=
           (if status (draft cs1) \<in> {InvalidPassword, Done} then draft cs1
            else (draft cs1)\<lparr>status := Closed\<rparr>)\<rparr>)"

definition conn_close :: "ConnState \<Rightarrow> ConnState \<times> Action list" where
  "conn_close cs = (if isOpen cs then (onClose (cs\<lparr>isOpen := False\<rparr>), [Close]) else (cs, []))"

definition fileInfo :: "UploadedFile list \<Rightarrow> FileInfo list" where
  "fileInfo files =
     map (\<lambda>f. \<lparr>fi_fileName = getFileName f, fi_size = file_size f, fi_type = type' f\<rparr>) files"

text \<open>The \<^verbatim>\<open>catch\<close> block of \<^verbatim>\<open>onData\<close>.\<close>

definition catchBlock :: "ConnState \<Rightarrow> ConnState \<times> Action list" where
  "catchBlock cs = conn_close (cs\<lparr>draft := (draft cs)\<lparr>status := Closed\<rparr>\<rparr>)"

definition onRequestInfo ::
  "UploadedFile list \<Rightarrow> string \<Rightarrow> ClientInfo \<Rightarrow> ConnState \<Rightarrow> ConnState \<times> Action list" where
  "onRequestInfo files password info cs =
     (if password \<noteq> [] then
        (cs\<lparr>draft :=
           (if status (draft cs) \<noteq> Pending then draft cs
            else (draft cs)\<lparr>clientInfo := Some info, status := Authenticating\<rparr>)\<rparr>,
         conn_send (PasswordRequired None) cs)
      else
        (cs\<lparr>draft :=
           (if status (draft cs) \<noteq> Pending then draft cs
            else (draft cs)\<lparr>clientInfo := Some info, status := Ready\<rparr>)\<rparr>,
         conn_send (Info (fileInfo files)) cs))"

definition onUsePassword ::
  "UploadedFile list \<Rightarrow> string \<Rightarrow> string \<Rightarrow> ConnState \<Rightarrow> ConnState \<times> Action list" where
  "onUsePassword files password submittedPassword cs =
     (if submittedPassword = password then
        (cs\<lparr>draft :=
           (if status (draft cs) \<noteq> Authenticating \<and> status (draft cs) \<noteq> InvalidPassword
            then draft cs
            else (draft cs)\<lparr>status := Ready\<rparr>)\<rparr>,
         conn_send (Info (fileInfo files)) cs)
      else
        (cs\<lparr>draft :=
           (if status (draft cs) \<noteq> Authenticating then draft cs
            else (draft cs)\<lparr>status := InvalidPassword\<rparr>)\<rparr>,
         conn_send (PasswordRequired (Some ''Invalid password'')) cs))"

definition onStart ::
  "UploadedFile list \<Rightarrow> string \<Rightarrow> int \<Rightarrow> ConnState \<Rightarrow> ConnState \<times> Action list" where
  "onStart files fileName offset cs =
     (case validateOffset files fileName offset of
        Inl e \<Rightarrow> catchBlock cs
      | Inr file \<Rightarrow>
          if status (draft cs) \<noteq> Ready \<and> status (draft cs) \<noteq> Paused then (cs, [])
          else
            ((setTimeout \<lparr>t_fileName = fileName, t_file = file, t_offset = offset\<rparr> cs)
               \<lparr>draft := (draft cs)\<lparr>status := Uploading,
                                    uploadingFileName := Some fileName,
                                    uploadingOffset := Some offset,
                                    currentFileProgress := (offset, file_size file)\<rparr>\<rparr>,
             []))"

definition onPause :: "ConnState \<Rightarrow> ConnState \<times> Action list" where
  "onPause cs =
     (if status (draft cs) \<noteq> Uploading then (cs, [])
      else
        ((case sendChunkTimeout cs of
            Some t \<Rightarrow> (clearTimeout t cs)\<lparr>sendChunkTimeout := None\<rparr>
          | None \<Rightarrow> cs)
           \<lparr>draft := (draft cs)\<lparr>status := Paused\<rparr>\<rparr>,
         []))"

definition onDone :: "ConnState \<Rightarrow> ConnState \<times> Action list" where
  "onDone cs =
     (if status (draft cs) \<noteq> Ready then (cs, [])
      else
        (let (cs1, acts) = conn_close cs
         in (cs1\<lparr>draft := (draft cs)\<lparr>status := Done\<rparr>\<rparr>, acts)))"

definition onData ::
  "UploadedFile list \<Rightarrow> string \<Rightarrow> Raw \<Rightarrow> ConnState \<Rightarrow> ConnState \<times> Action list" where
  "onData files password data cs =
     (case decodeMessage data of
        Inl e \<Rightarrow> catchBlock cs
      | Inr message \<Rightarrow>
          (case message of
             RequestInfo info \<Rightarrow> onRequestInfo files password info cs
           | UsePassword submittedPassword \<Rightarrow> onUsePassword files password submittedPassword cs
           | Start fileName offset \<Rightarrow> onStart files fileName offset cs
           | Pause \<Rightarrow> onPause cs
           | DoneMsg \<Rightarrow> onDone cs
           | _ \<Rightarrow> (cs, [])))"

text \<open>
  The callback of \<^verbatim>\<open>sendNextChunkAsync\<close>: send the chunk, then (in the updater) set
  \<^verbatim>\<open>offset = end\<close> and either finish the file or schedule the next callback. The updater
  does not look at the status.
\<close>

definition timeoutCallback :: "Transfer \<Rightarrow> ConnState \<Rightarrow> ConnState \<times> Action list" where
  "timeoutCallback tr cs =
     (let end' = chunk_end tr;
          final = chunk_final tr;
          acts = conn_send (chunk_request tr) cs
      in if final then
           (cs\<lparr>draft := (draft cs)\<lparr>status := Ready,
                                   completedFiles := completedFiles (draft cs) + 1,
                                   currentFileProgress := (0, 1)\<rparr>\<rparr>,
            acts)
         else
           ((setTimeout (tr\<lparr>t_offset := end'\<rparr>) cs)
              \<lparr>draft := (draft cs)\<lparr>uploadingOffset := Some end',
                                   currentFileProgress := (end', file_size (t_file tr))\<rparr>\<rparr>,
            acts))"

text \<open>
  The events of one connection: data arriving, the transport closing, and a scheduled
  timeout coming due.
\<close>

datatype Event = Data Raw | TransportClose | Timeout nat

fun step :: "UploadedFile list \<Rightarrow> string \<Rightarrow> Event \<Rightarrow> ConnState \<Rightarrow> ConnState \<times> Action list" where
  "step files password (Data d) cs = (if isOpen cs then onData files password d cs else (cs, []))"
| "step files password TransportClose cs =
     (if isOpen cs then (onClose (cs\<lparr>isOpen := False\<rparr>), []) else (cs, []))"
| "step files password (Timeout t) cs =
     (case map_of (scheduled cs) t of
        None \<Rightarrow> (cs, [])
      | Some tr \<Rightarrow> timeoutCallback tr (clearTimeout t cs))"

text \<open>Running a sequence of events, collecting what was done to the channel.\<close>

fun run :: "UploadedFile list \<Rightarrow> string \<Rightarrow> Event list \<Rightarrow> ConnState \<Rightarrow> ConnState \<times> Action list" where
  "run files password [] cs = (cs, [])"
| "run files password (ev # evs) cs =
     (let (cs1, acts1) = step files password ev cs;
          (cs2, acts2) = run files password evs cs1
      in (cs2, acts1 @ acts2))"

text \<open>The record and closure state \<^verbatim>\<open>listener\<close> creates for a new connection.\<close>

definition newConn :: "nat \<Rightarrow> UploadedFile list \<Rightarrow> ConnState" where
  "newConn conn files =
     \<lparr>draft = \<lparr>status = Pending, dataConnection = conn, completedFiles = 0,
               totalFiles = length files, currentFileProgress = (0, 1), clientInfo = None,
               uploadingFileName = None, uploadingOffset = None\<rparr>,
      isOpen = True, sendChunkTimeout = None, scheduled = [], nextTimeout = 1\<rparr>"

section \<open>The session: all connections of one uploader\<close>

text \<open>
  \<^verbatim>\<open>updateConnection\<close> maps over the list of connections and touches the entries whose
  \<^verbatim>\<open>dataConnection\<close> is the handle at hand; \<open>on_handle\<close> does the same for anything done
  to one handle.
\<close>

datatype SessionAction = To nat Action | Navigate string

definition on_handle ::
  "nat \<Rightarrow> (ConnState \<Rightarrow> ConnState \<times> Action list) \<Rightarrow> ConnState list
     \<Rightarrow> ConnState list \<times> SessionAction list" where
  "on_handle h f s =
     (map (\<lambda>c. if dataConnection (draft c) = h then fst (f c) else c) s,
      concat (map (\<lambda>c. if dataConnection (draft c) = h then map (To h) (snd (f c)) else []) s))"

text \<open>
  The state of the hook. \<open>conns\<close> is the React state \<^verbatim>\<open>connections\<close>, newest first, each
  record together with what its listener invocation keeps. \<open>captured\<close> is the value of
  \<^verbatim>\<open>connections\<close> that the installed \<^verbatim>\<open>listener\<close> closes over: the effect that defines
  the listener has the dependencies \<^verbatim>\<open>[peer, files, password]\<close>, so the listener sees the
  array of the render in which the effect last ran, not the current state.
  \<open>nextHandle\<close> names the next \<^verbatim>\<open>DataConnection\<close> object the peer will deliver; every
  incoming connection is a new object.
\<close>

record Session =
  conns :: "ConnState list"
  captured :: "UploaderConnection list"
  nextHandle :: nat

text \<open>The first render: \<^verbatim>\<open>useState([])\<close>, and the effect runs with that empty array.\<close>

definition mount :: Session where
  "mount = \<lparr>conns = [], captured = [], nextHandle = 0\<rparr>"

text \<open>
  The report branch of \<^verbatim>\<open>listener\<close>: for each record \<open>c\<close> of the \<^verbatim>\<open>connections\<close> the
  listener holds, \<^verbatim>\<open>c.dataConnection.send({type: Report})\<close>, then
  \<^verbatim>\<open>c.dataConnection.close()\<close>.
\<close>

fun broadcastReport ::
  "UploaderConnection list \<Rightarrow> ConnState list \<Rightarrow> ConnState list \<times> SessionAction list" where
  "broadcastReport [] s = (s, [])"
| "broadcastReport (c # cs) s =
     (let (s1, a1) = on_handle (dataConnection c) (\<lambda>x. (x, conn_send Report x)) s;
          (s2, a2) = on_handle (dataConnection c) conn_close s1;
          (s3, a3) = broadcastReport cs s2
      in (s3, a1 @ a2 @ a3))"

text \<open>
  \<^verbatim>\<open>listener(conn)\<close>, for a connection with handle \<open>conn\<close> whose \<^verbatim>\<open>metadata?.type\<close> is
  \<open>metadataType\<close>. The report branch iterates over the captured array and ends with
  \<^verbatim>\<open>window.location.href = '/reported'\<close>; the other branch prepends the new record to the
  state. What the navigation does to the page is not part of the model.
\<close>

definition listener ::
  "UploadedFile list \<Rightarrow> nat \<Rightarrow> string option \<Rightarrow> Session \<Rightarrow> Session \<times> SessionAction list" where
  "listener files conn metadataType s =
     (if metadataType = Some ''report'' then
        (let (cs1, acts) = broadcastReport (captured s) (conns s)
         in (s\<lparr>conns := cs1\<rparr>, acts @ [Navigate ''/reported'']))
      else (s\<lparr>conns := newConn conn files # conns s\<rparr>, []))"

text \<open>
  The effect's cleanup, run when a dependency changes: every connection the listener
  accepted has its \<^verbatim>\<open>data\<close> and \<^verbatim>\<open>close\<close> handlers removed and is closed. The \<^verbatim>\<open>close\<close>
  handler is gone by then, so the record and the scheduled callback stay as they are;
  a closed channel delivers no more events, so the missing handlers need no state of
  their own.
\<close>

definition effect_cleanup :: "ConnState list \<Rightarrow> ConnState list \<times> SessionAction list" where
  "effect_cleanup s =
     (map (\<lambda>c. c\<lparr>isOpen := False\<rparr>) s,
      concat (map (\<lambda>c. if isOpen c then [To (dataConnection (draft c)) Close] else []) s))"

text \<open>
  The events of a session: the peer delivers a connection (with its metadata type), an
  event reaches an established connection, or the effect runs again because \<^verbatim>\<open>peer\<close>,
  \<^verbatim>\<open>files\<close> or \<^verbatim>\<open>password\<close> changed identity (cleanup, then a listener that closes over the
  \<^verbatim>\<open>connections\<close> of that render).
\<close>

datatype SessionEvent = Connection "string option" | On nat Event | EffectRerun

fun session_step ::
  "UploadedFile list \<Rightarrow> string \<Rightarrow> SessionEvent \<Rightarrow> Session \<Rightarrow> Session \<times> SessionAction list" where
  "session_step files password (Connection metadataType) s =
     (let (s1, acts) = listener files (nextHandle s) metadataType s
      in (s1\<lparr>nextHandle := Suc (nextHandle s)\<rparr>, acts))"
| "session_step files password (On h ev) s =
     (let (cs1, acts) = on_handle h (step files password ev) (conns s)
      in (s\<lparr>conns := cs1\<rparr>, acts))"
| "session_step files password EffectRerun s =
     (let (cs1, acts) = effect_cleanup (conns s)
      in (s\<lparr>conns := cs1, captured := map draft cs1\<rparr>, acts))"

fun session_run ::
  "UploadedFile list \<Rightarrow> string \<Rightarrow> SessionEvent list \<Rightarrow> Session \<Rightarrow> Session \<times> SessionAction list" where
  "session_run files password [] s = (s, [])"
| "session_run files password (ev # evs) s =
     (let (s1, a1) = session_step files password ev s;
          (s2, a2) = session_run files password evs s1
      in (s2, a1 @ a2))"

text \<open>
  What holds of a session however it got where it is: every handle in use is below
  \<open>nextHandle\<close>, and a connection whose record the listener has captured is closed.
\<close>

definition session_inv :: "Session \<Rightarrow> bool" where
  "session_inv s \<longleftrightarrow>
     list_all (\<lambda>c. dataConnection (draft c) < nextHandle s \<and>
                   (dataConnection (draft c) \<in> set (map dataConnection (captured s))
                      \<longrightarrow> \<not> isOpen c)) (conns s) \<and>
     list_all (\<lambda>r. dataConnection r < nextHandle s) (captured s)"

section \<open>The destroy endpoint\<close>

datatype Json =
    JNull | JBool bool | JNumber int | JString string
  | JArray "Json list" | JObject "(string \<times> Json) list"

record Response =
  json :: Json
  statusCode :: nat

datatype http_error = SyntaxError | DestructureError | RepoError

text \<open>
  \<^verbatim>\<open>const { slug } = body\<close>: destructuring \<^verbatim>\<open>null\<close> throws; an object gives its member
  (the last one of that name, as \<^verbatim>\<open>JSON.parse\<close> keeps it) or \<^verbatim>\<open>undefined\<close>; any other value
  has no such property.
\<close>

fun destructure_slug :: "Json \<Rightarrow> http_error + Json option" where
  "destructure_slug JNull = Inl DestructureError"
| "destructure_slug (JObject kvs) = Inr (map_of (rev kvs) ''slug'')"
| "destructure_slug _ = Inr None"

text \<open>JavaScript truthiness of a JSON value or \<^verbatim>\<open>undefined\<close>.\<close>

fun truthy :: "Json option \<Rightarrow> bool" where
  "truthy None = False"
| "truthy (Some JNull) = False"
| "truthy (Some (JBool b)) = b"
| "truthy (Some (JNumber n)) = (n \<noteq> 0)"
| "truthy (Some (JString s)) = (s \<noteq> [])"
| "truthy (Some _) = True"

text \<open>
  The route handler. The request is its parsed body (\<open>None\<close> when \<^verbatim>\<open>request.json()\<close>
  rejects); the repository is a state \<open>'r\<close> with the operation \<^verbatim>\<open>destroyChannel\<close>, which
  returns the new state and the error it threw, if any. An exception outside the
  \<^verbatim>\<open>try\<close> leaves the handler (\<open>Inl\<close>).
\<close>

definition POST ::
  "(Json \<Rightarrow> 'r \<Rightarrow> 'r \<times> http_error option) \<Rightarrow> Json option \<Rightarrow> 'r
     \<Rightarrow> http_error + (Response \<times> 'r)" where
  "POST destroyChannel request repo =
     (case request of
        None \<Rightarrow> Inl SyntaxError
      | Some body \<Rightarrow>
          (case destructure_slug body of
             Inl e \<Rightarrow> Inl e
           | Inr slug \<Rightarrow>
               if \<not> truthy slug then
                 Inr (\<lparr>json = JObject [(''error'', JString ''Slug is required'')],
                       statusCode = 400\<rparr>, repo)
               else
                 (case destroyChannel (the slug) repo of
                    (repo1, None) \<Rightarrow>
                      Inr (\<lparr>json = JObject [(''success'', JBool True)], statusCode = 200\<rparr>, repo1)
                  | (repo1, Some e) \<Rightarrow>
                      Inr (\<lparr>json = JObject [(''error'', JString ''Failed to destroy channel'')],
                            statusCode = 500\<rparr>, repo1))))"

text \<open>
  Modelled from the spec: the channel repository (\<^verbatim>\<open>getOrCreateChannelRepo\<close>,
  \<^verbatim>\<open>destroyChannel\<close> of \<^verbatim>\<open>../../../channel\<close>) is not among the sources. Per the spec a
  channel record has a short slug (primary key) and a long slug (alias), exists while
  \<open>expiresAt > now\<close>, is removed by \<open>destroy\<close>, which always succeeds, and \<open>resolve\<close> fails
  with \<open>NotFound\<close> for an absent or expired record.
\<close>

record ChannelRecord =
  shortSlug :: string
  longSlug :: string
  ownerPeerID :: string
  secret :: string
  createdAt :: nat
  expiresAt :: nat

datatype directory_error = NotFound | Unauthorized

definition names_channel :: "string \<Rightarrow> ChannelRecord \<Rightarrow> bool" where
  "names_channel slug r = (shortSlug r = slug \<or> longSlug r = slug)"

definition resolve :: "nat \<Rightarrow> string \<Rightarrow> ChannelRecord list \<Rightarrow> directory_error + string" where
  "resolve now slug repo =
     (case find (\<lambda>r. names_channel slug r \<and> now < expiresAt r) repo of
        None \<Rightarrow> Inl NotFound
      | Some r \<Rightarrow> Inr (ownerPeerID r))"

definition destroy :: "string \<Rightarrow> ChannelRecord list \<Rightarrow> ChannelRecord list" where
  "destroy slug repo = filter (\<lambda>r. \<not> names_channel slug r) repo"

fun destroyChannel :: "Json \<Rightarrow> ChannelRecord list \<Rightarrow> ChannelRecord list \<times> http_error option" where
  "destroyChannel (JString slug) repo = (destroy slug repo, None)"
| "destroyChannel _ repo = (repo, None)"

section \<open>Observing a run\<close>

text \<open>The fields of a \<^verbatim>\<open>Chunk\<close> message.\<close>

fun chunk_bytes :: "Message \<Rightarrow> byte list" where
  "chunk_bytes (Chunk fileName offset bytes final) = bytes"
| "chunk_bytes _ = []"

fun chunk_offset :: "Message \<Rightarrow> int" where
  "chunk_offset (Chunk fileName offset bytes final) = offset"
| "chunk_offset _ = 0"

fun chunk_is_final :: "Message \<Rightarrow> bool" where
  "chunk_is_final (Chunk fileName offset bytes final) = final"
| "chunk_is_final _ = False"

fun is_chunk :: "Action \<Rightarrow> bool" where
  "is_chunk (Send (Chunk fileName offset bytes final)) = True"
| "is_chunk _ = False"

text \<open>
  The event loop letting the earliest scheduled timeout of a connection come due, \<open>k\<close>
  times over (or until nothing is scheduled).
\<close>

fun timeouts :: "UploadedFile list \<Rightarrow> string \<Rightarrow> nat \<Rightarrow> ConnState \<Rightarrow> ConnState \<times> Action list" where
  "timeouts files password 0 cs = (cs, [])"
| "timeouts files password (Suc k) cs =
     (case scheduled cs of
        [] \<Rightarrow> (cs, [])
      | (t, tr) # rest \<Rightarrow>
          (let (cs1, a1) = step files password (Timeout t) cs;
               (cs2, a2) = timeouts files password k cs1
           in (cs2, a1 @ a2)))"

text \<open>
  A connection in the middle of a transfer: open, \<open>Uploading\<close>, and exactly one callback
  scheduled, the one \<^verbatim>\<open>sendChunkTimeout\<close> refers to, which will send from \<open>tr\<close>.
\<close>

definition uploading_at :: "ConnState \<Rightarrow> Transfer \<Rightarrow> bool" where
  "uploading_at cs tr \<longleftrightarrow>
     isOpen cs \<and> status (draft cs) = Uploading \<and>
     (case sendChunkTimeout cs of None \<Rightarrow> False | Some t \<Rightarrow> scheduled cs = [(t, tr)])"

text \<open>Sample data for the concrete instances below.\<close>

definition a_client :: ClientInfo where
  "a_client = \<lparr>browserName = ''Firefox'', browserVersion = ''1'', osName = ''Linux'',
      osVersion = ''6'', mobileVendor = None, mobileModel = None\<rparr>"

definition empty_file :: UploadedFile where
  "empty_file = \<lparr>name = ''a.txt'', type' = ''text/plain'', content = []\<rparr>"

definition big_file :: UploadedFile where
  "big_file = \<lparr>name = ''b.bin'', type' = ''application/octet-stream'',
      content = replicate 300000 0\<rparr>"

text \<open>A connection that asked for the catalog of a session without password.\<close>

definition ready_conn :: "UploadedFile list \<Rightarrow> ConnState" where
  "ready_conn files = fst (step files [] (Data (Encoded (RequestInfo a_client))) (newConn 0 files))"

definition a_channel :: ChannelRecord where
  "a_channel = \<lparr>shortSlug = ''abc'', longSlug = ''bacon/cheese/olive/tomato'',
      ownerPeerID = ''peer-1'', secret = ''s3cret'', createdAt = 0, expiresAt = 3600\<rparr>"

text \<open>
  A connection that has not been let through by the password check: nothing is scheduled and its status
  is one of those before \<open>Ready\<close>, or \<open>Closed\<close>.
\<close>

definition unauthenticated :: "ConnState \<Rightarrow> bool" where
  "unauthenticated cs \<longleftrightarrow>
     scheduled cs = [] \<and>
     (status (draft cs) = Pending \<or> status (draft cs) = Authenticating \<or>
      status (draft cs) = InvalidPassword \<or> status (draft cs) = Closed)"

text \<open>The messages among the actions on a channel.\<close>

fun sent :: "Action list \<Rightarrow> Message list" where
  "sent [] = []"
| "sent (Send m # acts) = m # sent acts"
| "sent (Close # acts) = sent acts"

section \<open>The chunk stream as the protocol describes it\<close>

text \<open>
  Following the spec's words: with \<open>offset\<close> advancing by \<open>CHUNK_SIZE\<close>, chunk number \<open>i\<close>
  of a transfer of \<open>file\<close> as \<open>fileName\<close> started at \<open>offset\<close> has
  \<open>end = min(fileSize, start + CHUNK_SIZE)\<close> and is
  \<open>Chunk{fileName, start, bytes[start, end), final = (end - start < CHUNK_SIZE)}\<close>.
\<close>

definition spec_chunk :: "string \<Rightarrow> UploadedFile \<Rightarrow> int \<Rightarrow> nat \<Rightarrow> Message" where
  "spec_chunk fileName file offset i =
     (let start = offset + int i * MAX_CHUNK_SIZE;
          end' = min (file_size file) (start + MAX_CHUNK_SIZE)
      in Chunk fileName start
           (take (nat (end' - start)) (drop (nat start) (content file)))
           (end' - start < MAX_CHUNK_SIZE))"

text \<open>
  Chunk messages \<open>ms\<close>, in the order sent, make up the bytes \<open>bs\<close>: there is at least one,
  the payloads concatenate to \<open>bs\<close>, \<open>final\<close> is set on the last one and on no other, and
  the offsets ascend.
\<close>

definition complete_stream :: "byte list \<Rightarrow> Message list \<Rightarrow> bool" where
  "complete_stream bs ms \<longleftrightarrow>
     ms \<noteq> [] \<and> concat (map chunk_bytes ms) = bs \<and>
     map chunk_is_final ms = replicate (length ms - 1) False @ [True] \<and>
     sorted_wrt (<) (map chunk_offset ms)"

text \<open>
  What holds of a connection however it got where it is: a callback is scheduled only in
  the middle of a transfer, and a connection that is \<open>Ready\<close>, \<open>Uploading\<close> or \<open>Paused\<close>
  has an open channel.
\<close>

definition consistent :: "ConnState \<Rightarrow> bool" where
  "consistent cs \<longleftrightarrow>
     (case scheduled cs of
        [] \<Rightarrow> True
      | [(t, tr)] \<Rightarrow> uploading_at cs tr
      | _ \<Rightarrow> False) \<and>
     (status (draft cs) = Ready \<or> status (draft cs) = Uploading \<or> status (draft cs) = Paused
        \<longrightarrow> isOpen cs)"

section \<open>The chunk sequence\<close>

lemma blob_slice_range:
  "0 \<le> a \<Longrightarrow> a \<le> b \<Longrightarrow> b \<le> int (length bs) \<Longrightarrow>
   blob_slice bs a b = take (nat (b - a)) (drop (nat a) bs)"
  by (simp add: blob_slice_def Let_def min_def max_def)

lemma chunk_end_bounds:
  "t_offset tr \<le> file_size (t_file tr) \<Longrightarrow>
   t_offset tr \<le> chunk_end tr \<and> chunk_end tr \<le> file_size (t_file tr)"
  by (simp add: chunk_end_def MAX_CHUNK_SIZE_def)

lemma chunk_final_end:
  "t_offset tr \<le> file_size (t_file tr) \<Longrightarrow> chunk_final tr \<Longrightarrow> chunk_end tr = file_size (t_file tr)"
  by (auto simp: chunk_final_def chunk_end_def min_def split: if_splits)

lemma chunk_not_final_end:
  "\<not> chunk_final tr \<Longrightarrow> chunk_end tr = t_offset tr + MAX_CHUNK_SIZE"
  by (auto simp: chunk_final_def chunk_end_def min_def split: if_splits)

lemma chunks_concat:
  "0 \<le> t_offset tr \<Longrightarrow> t_offset tr \<le> file_size (t_file tr) \<Longrightarrow>
   concat (map chunk_bytes (chunks tr)) = drop (nat (t_offset tr)) (content (t_file tr))"
proof (induction tr rule: chunks.induct)
  case (1 tr)
  let ?bs = "content (t_file tr)"
  have b: "t_offset tr \<le> chunk_end tr" "chunk_end tr \<le> file_size (t_file tr)"
    using chunk_end_bounds [of tr] 1(3) by auto
  have here: "chunk_bytes (chunk_request tr) = take (nat (chunk_end tr - t_offset tr)) (drop (nat (t_offset tr)) ?bs)"
    using b 1(2) by (simp add: chunk_request_def blob_slice_range file_size_def)
  show ?case
  proof (cases "chunk_final tr")
    case True
    then have "chunk_end tr = file_size (t_file tr)" using chunk_final_end 1(3) by blast
    then show ?thesis using True here
      by (subst chunks.simps) (simp add: file_size_def)
  next
    case False
    have ih: "concat (map chunk_bytes (chunks (tr\<lparr>t_offset := chunk_end tr\<rparr>))) = drop (nat (chunk_end tr)) ?bs"
      using 1(1) [OF False] b 1(2) by simp
    have "take (nat (chunk_end tr - t_offset tr)) (drop (nat (t_offset tr)) ?bs) @ drop (nat (chunk_end tr)) ?bs
        = drop (nat (t_offset tr)) ?bs"
    proof -
      have "nat (chunk_end tr) = nat (chunk_end tr - t_offset tr) + nat (t_offset tr)"
        using b 1(2) by simp
      then have "drop (nat (chunk_end tr)) ?bs = drop (nat (chunk_end tr - t_offset tr)) (drop (nat (t_offset tr)) ?bs)"
        by simp
      then show ?thesis by (simp only: append_take_drop_id)
    qed
    then show ?thesis using False here ih
      by (subst chunks.simps) simp
  qed
qed

lemma chunks_final:
  "map chunk_is_final (chunks tr) = replicate (length (chunks tr) - 1) False @ [True]"
proof (induction tr rule: chunks.induct)
  case (1 tr)
  show ?case
  proof (cases "chunk_final tr")
    case True
    then show ?thesis by (subst (1 2) chunks.simps) (simp add: chunk_request_def)
  next
    case False
    have ne: "chunks (tr\<lparr>t_offset := chunk_end tr\<rparr>) \<noteq> []"
      by (subst chunks.simps) simp
    then have "length (chunks (tr\<lparr>t_offset := chunk_end tr\<rparr>)) = Suc (length (chunks (tr\<lparr>t_offset := chunk_end tr\<rparr>)) - 1)"
      by (cases "chunks (tr\<lparr>t_offset := chunk_end tr\<rparr>)") auto
    then show ?thesis using False 1 [OF False]
      by (subst (1 2) chunks.simps) (simp add: chunk_request_def flip: replicate_Suc)
  qed
qed

lemma chunks_offsets:
  "map chunk_offset (chunks tr) = map (\<lambda>i. t_offset tr + int i * MAX_CHUNK_SIZE) [0..<length (chunks tr)]"
proof (induction tr rule: chunks.induct)
  case (1 tr)
  show ?case
  proof (cases "chunk_final tr")
    case True
    then show ?thesis by (subst (1 2) chunks.simps) (simp add: chunk_request_def)
  next
    case False
    let ?tr = "tr\<lparr>t_offset := chunk_end tr\<rparr>"
    have e: "chunk_end tr = t_offset tr + MAX_CHUNK_SIZE" using False chunk_not_final_end by blast
    have "map chunk_offset (chunks tr) = t_offset tr # map chunk_offset (chunks ?tr)"
      using False by (subst chunks.simps) (simp add: chunk_request_def)
    also have "\<dots> = t_offset tr # map (\<lambda>i. t_offset tr + int (Suc i) * MAX_CHUNK_SIZE) [0..<length (chunks ?tr)]"
      using 1 [OF False] e by (simp add: algebra_simps)
    also have "\<dots> = map (\<lambda>i. t_offset tr + int i * MAX_CHUNK_SIZE) [0..<Suc (length (chunks ?tr))]"
      by (simp add: upt_conv_Cons map_Suc_upt [symmetric] del: upt_Suc)
    also have "Suc (length (chunks ?tr)) = length (chunks tr)"
      using False by (subst (2) chunks.simps) simp
    finally show ?thesis .
  qed
qed

lemma chunks_length:
  "t_offset tr \<le> file_size (t_file tr) \<Longrightarrow>
   length (chunks tr) = nat ((file_size (t_file tr) - t_offset tr) div MAX_CHUNK_SIZE) + 1"
proof (induction tr rule: chunks.induct)
  case (1 tr)
  let ?d = "file_size (t_file tr) - t_offset tr"
  have d0: "0 \<le> ?d" using 1(2) by simp
  show ?case
  proof (cases "chunk_final tr")
    case True
    then have "?d < MAX_CHUNK_SIZE"
      by (auto simp: chunk_final_def chunk_end_def min_def MAX_CHUNK_SIZE_def split: if_splits)
    then have "?d div MAX_CHUNK_SIZE = 0" using d0 by simp
    then show ?thesis using True by (subst chunks.simps) simp
  next
    case False
    let ?tr = "tr\<lparr>t_offset := chunk_end tr\<rparr>"
    have e: "chunk_end tr = t_offset tr + MAX_CHUNK_SIZE" using False chunk_not_final_end by blast
    have ge: "MAX_CHUNK_SIZE \<le> ?d"
      using False by (auto simp: chunk_final_def chunk_end_def min_def MAX_CHUNK_SIZE_def split: if_splits)
    have "length (chunks ?tr) = nat ((?d - MAX_CHUNK_SIZE) div MAX_CHUNK_SIZE) + 1"
      using 1(1) [OF False] ge e by (simp add: algebra_simps)
    moreover have "(?d - MAX_CHUNK_SIZE) div MAX_CHUNK_SIZE = ?d div MAX_CHUNK_SIZE - 1"
      by (simp add: MAX_CHUNK_SIZE_def)
    moreover have "1 \<le> ?d div MAX_CHUNK_SIZE"
      using ge by (simp add: MAX_CHUNK_SIZE_def)
    ultimately show ?thesis using False
      by (subst chunks.simps) (simp add: nat_diff_distrib)
  qed
qed

section \<open>Timeouts driving a transfer\<close>

lemma uploading_at_iff:
  "uploading_at cs tr \<longleftrightarrow>
     isOpen cs \<and> status (draft cs) = Uploading \<and>
     (\<exists>t. scheduled cs = [(t, tr)] \<and> sendChunkTimeout cs = Some t)"
  by (auto simp: uploading_at_def split: option.splits)

lemma timeouts_idle: "scheduled cs = [] \<Longrightarrow> timeouts files password k cs = (cs, [])"
  by (cases k) simp_all

lemma start_uploading:
  assumes "validateOffset files fileName offset = Inr file"
    and "isOpen cs" and "status (draft cs) = Ready \<or> status (draft cs) = Paused"
    and "scheduled cs = []"
  shows "\<exists>cs1. step files password (Data (Encoded (Start fileName offset))) cs = (cs1, []) \<and>
           uploading_at cs1 \<lparr>t_fileName = fileName, t_file = file, t_offset = offset\<rparr> \<and>
           completedFiles (draft cs1) = completedFiles (draft cs)"
  using assms
  by (auto simp: onData_def onStart_def setTimeout_def uploading_at_iff)

lemma timeout_not_final:
  assumes "uploading_at cs tr" and "\<not> chunk_final tr"
  shows "\<exists>t cs1. scheduled cs = [(t, tr)] \<and>
           step files password (Timeout t) cs = (cs1, [Send (chunk_request tr)]) \<and>
           uploading_at cs1 (tr\<lparr>t_offset := chunk_end tr\<rparr>) \<and>
           completedFiles (draft cs1) = completedFiles (draft cs)"
  using assms
  by (auto simp: uploading_at_iff timeoutCallback_def clearTimeout_def setTimeout_def
      conn_send_def Let_def)

lemma timeout_final:
  assumes "uploading_at cs tr" and "chunk_final tr"
  shows "\<exists>t cs1. scheduled cs = [(t, tr)] \<and>
           step files password (Timeout t) cs = (cs1, [Send (chunk_request tr)]) \<and>
           isOpen cs1 \<and> status (draft cs1) = Ready \<and> scheduled cs1 = [] \<and>
           completedFiles (draft cs1) = completedFiles (draft cs) + 1"
  using assms
  by (auto simp: uploading_at_iff timeoutCallback_def clearTimeout_def setTimeout_def
      conn_send_def Let_def)

lemma pause_uploading:
  assumes "uploading_at cs tr"
  shows "\<exists>cs1. step files password (Data (Encoded Pause)) cs = (cs1, []) \<and>
           isOpen cs1 \<and> status (draft cs1) = Paused \<and> scheduled cs1 = [] \<and>
           completedFiles (draft cs1) = completedFiles (draft cs)"
  using assms
  by (auto simp: uploading_at_iff onData_def onPause_def clearTimeout_def)

lemma chunks_not_Nil: "chunks tr \<noteq> []"
  by (subst chunks.simps) simp

lemma timeouts_partial:
  "uploading_at cs tr \<Longrightarrow> k < length (chunks tr) \<Longrightarrow>
   \<exists>cs1. timeouts files password k cs = (cs1, map Send (take k (chunks tr))) \<and>
         uploading_at cs1 (tr\<lparr>t_offset := t_offset tr + int k * MAX_CHUNK_SIZE\<rparr>) \<and>
         completedFiles (draft cs1) = completedFiles (draft cs)"
proof (induction k arbitrary: cs tr)
  case 0
  then show ?case by simp
next
  case (Suc k)
  have nf: "\<not> chunk_final tr"
  proof
    assume "chunk_final tr"
    then have "chunks tr = [chunk_request tr]" by (subst chunks.simps) simp
    with Suc.prems(2) show False by simp
  qed
  let ?tr = "tr\<lparr>t_offset := chunk_end tr\<rparr>"
  have unf: "chunks tr = chunk_request tr # chunks ?tr"
    using nf by (subst chunks.simps) simp
  obtain t cs1 where s: "scheduled cs = [(t, tr)]"
      "step files password (Timeout t) cs = (cs1, [Send (chunk_request tr)])"
      "uploading_at cs1 ?tr" "completedFiles (draft cs1) = completedFiles (draft cs)"
    using timeout_not_final [OF Suc.prems(1) nf] by blast
  have "k < length (chunks ?tr)" using Suc.prems(2) unf by simp
  from Suc.IH [OF s(3) this] obtain cs2 where
    r: "timeouts files password k cs1 = (cs2, map Send (take k (chunks ?tr)))"
       "uploading_at cs2 (?tr\<lparr>t_offset := t_offset ?tr + int k * MAX_CHUNK_SIZE\<rparr>)"
       "completedFiles (draft cs2) = completedFiles (draft cs1)"
    by blast
  have e: "chunk_end tr = t_offset tr + MAX_CHUNK_SIZE" using nf chunk_not_final_end by blast
  have "?tr\<lparr>t_offset := t_offset ?tr + int k * MAX_CHUNK_SIZE\<rparr>
        = tr\<lparr>t_offset := t_offset tr + int (Suc k) * MAX_CHUNK_SIZE\<rparr>"
    using e by (simp add: algebra_simps)
  then show ?case using s r unf by simp
qed

lemma timeouts_complete:
  "uploading_at cs tr \<Longrightarrow> length (chunks tr) \<le> k \<Longrightarrow>
   \<exists>cs1. timeouts files password k cs = (cs1, map Send (chunks tr)) \<and>
         isOpen cs1 \<and> status (draft cs1) = Ready \<and> scheduled cs1 = [] \<and>
         completedFiles (draft cs1) = completedFiles (draft cs) + 1"
proof (induction k arbitrary: cs tr)
  case 0
  then show ?case using chunks_not_Nil by simp
next
  case (Suc k)
  show ?case
  proof (cases "chunk_final tr")
    case True
    then have unf: "chunks tr = [chunk_request tr]" by (subst chunks.simps) simp
    obtain t cs1 where s: "scheduled cs = [(t, tr)]"
      "step files password (Timeout t) cs = (cs1, [Send (chunk_request tr)])"
      "isOpen cs1" "status (draft cs1) = Ready" "scheduled cs1 = []"
      "completedFiles (draft cs1) = completedFiles (draft cs) + 1"
      using timeout_final [OF Suc.prems(1) True] by blast
    show ?thesis using s unf timeouts_idle [OF s(5)] by simp
  next
    case False
    let ?tr = "tr\<lparr>t_offset := chunk_end tr\<rparr>"
    have unf: "chunks tr = chunk_request tr # chunks ?tr"
      using False by (subst chunks.simps) simp
    obtain t cs1 where s: "scheduled cs = [(t, tr)]"
      "step files password (Timeout t) cs = (cs1, [Send (chunk_request tr)])"
      "uploading_at cs1 ?tr" "completedFiles (draft cs1) = completedFiles (draft cs)"
      using timeout_not_final [OF Suc.prems(1) False] by blast
    have "length (chunks ?tr) \<le> k" using Suc.prems(2) unf by simp
    from Suc.IH [OF s(3) this] obtain cs2 where
      r: "timeouts files password k cs1 = (cs2, map Send (chunks ?tr))"
      "isOpen cs2" "status (draft cs2) = Ready" "scheduled cs2 = []"
      "completedFiles (draft cs2) = completedFiles (draft cs1) + 1"
      by blast
    show ?thesis using s r unf by simp
  qed
qed

section \<open>Properties of the chunk sequence and of a transfer\<close>

lemma sent_map_Send [simp]: "sent (map Send ms) = ms"
  by (induction ms) simp_all

lemma chunks_nth:
  "i < length (chunks tr) \<Longrightarrow>
   chunks tr ! i = chunk_request (tr\<lparr>t_offset := t_offset tr + int i * MAX_CHUNK_SIZE\<rparr>)"
proof (induction i arbitrary: tr)
  case 0
  then show ?case by (subst chunks.simps) simp
next
  case (Suc i)
  have nf: "\<not> chunk_final tr"
  proof
    assume "chunk_final tr"
    then have "chunks tr = [chunk_request tr]" by (subst chunks.simps) simp
    with Suc.prems show False by simp
  qed
  let ?tr = "tr\<lparr>t_offset := chunk_end tr\<rparr>"
  have unf: "chunks tr = chunk_request tr # chunks ?tr"
    using nf by (subst chunks.simps) simp
  have e: "chunk_end tr = t_offset tr + MAX_CHUNK_SIZE" using nf chunk_not_final_end by blast
  have "i < length (chunks ?tr)" using Suc.prems unf by simp
  from Suc.IH [OF this] have "chunks ?tr ! i = chunk_request (?tr\<lparr>t_offset := t_offset ?tr + int i * MAX_CHUNK_SIZE\<rparr>)" .
  moreover have "?tr\<lparr>t_offset := t_offset ?tr + int i * MAX_CHUNK_SIZE\<rparr>
        = tr\<lparr>t_offset := t_offset tr + int (Suc i) * MAX_CHUNK_SIZE\<rparr>"
    using e by (simp add: algebra_simps)
  ultimately show ?case using unf by simp
qed

lemma chunk_index_bound:
  assumes "t_offset tr \<le> file_size (t_file tr)" and "i < length (chunks tr)"
  shows "t_offset tr + int i * MAX_CHUNK_SIZE \<le> file_size (t_file tr)"
proof -
  let ?d = "file_size (t_file tr) - t_offset tr"
  have "0 \<le> ?d div MAX_CHUNK_SIZE"
    using assms(1) by (simp add: MAX_CHUNK_SIZE_def pos_imp_zdiv_nonneg_iff)
  then have "int i \<le> ?d div MAX_CHUNK_SIZE"
    using assms chunks_length [OF assms(1)] by simp
  then have "int i * MAX_CHUNK_SIZE \<le> (?d div MAX_CHUNK_SIZE) * MAX_CHUNK_SIZE"
    by (simp add: MAX_CHUNK_SIZE_def)
  also have "\<dots> \<le> ?d"
    by (simp add: MAX_CHUNK_SIZE_def)
  finally show ?thesis by simp
qed

lemma chunk_request_range:
  assumes "0 \<le> t_offset tr" and "t_offset tr \<le> file_size (t_file tr)"
  shows "chunk_request tr =
     Chunk (t_fileName tr) (t_offset tr)
       (take (nat (min (file_size (t_file tr)) (t_offset tr + MAX_CHUNK_SIZE) - t_offset tr))
          (drop (nat (t_offset tr)) (content (t_file tr))))
       (min (file_size (t_file tr)) (t_offset tr + MAX_CHUNK_SIZE) - t_offset tr < MAX_CHUNK_SIZE)"
proof -
  have "t_offset tr \<le> chunk_end tr" "chunk_end tr \<le> int (length (content (t_file tr)))"
    using chunk_end_bounds [OF assms(2)] by (simp_all add: file_size_def)
  then show ?thesis using assms(1)
    by (simp add: chunk_request_def chunk_final_def blob_slice_range) (simp add: chunk_end_def)
qed

lemma chunks_closed_form:
  assumes "0 \<le> offset" and "offset \<le> file_size file"
  shows "chunks \<lparr>t_fileName = fileName, t_file = file, t_offset = offset\<rparr> =
         map (spec_chunk fileName file offset) [0..<nat ((file_size file - offset) div MAX_CHUNK_SIZE) + 1]"
proof (rule nth_equalityI)
  let ?tr = "\<lparr>t_fileName = fileName, t_file = file, t_offset = offset\<rparr>"
  have len: "length (chunks ?tr) = nat ((file_size file - offset) div MAX_CHUNK_SIZE) + 1"
    using chunks_length [of ?tr] assms by simp
  then show "length (chunks ?tr) =
    length (map (spec_chunk fileName file offset) [0..<nat ((file_size file - offset) div MAX_CHUNK_SIZE) + 1])"
    by simp
  fix i assume i: "i < length (chunks ?tr)"
  let ?tri = "?tr\<lparr>t_offset := t_offset ?tr + int i * MAX_CHUNK_SIZE\<rparr>"
  have b: "offset + int i * MAX_CHUNK_SIZE \<le> file_size file"
    using chunk_index_bound [of ?tr i] assms i by simp
  have nn: "0 \<le> offset + int i * MAX_CHUNK_SIZE"
    using assms(1) by (simp add: MAX_CHUNK_SIZE_def)
  have "chunks ?tr ! i = chunk_request ?tri" using chunks_nth [OF i] .
  also have "\<dots> = spec_chunk fileName file offset i"
    using chunk_request_range [of ?tri] b nn by (simp add: spec_chunk_def Let_def)
  finally show "chunks ?tr ! i =
     map (spec_chunk fileName file offset) [0..<nat ((file_size file - offset) div MAX_CHUNK_SIZE) + 1] ! i"
    using i len by (simp del: upt_Suc)
qed

lemma validateOffset_bound:
  "validateOffset files fileName offset = Inr file \<Longrightarrow>
   offset \<le> file_size file \<and> getFileName file = fileName \<and> file \<in> set files"
  by (auto simp: validateOffset_def find_Some_iff split: option.splits)

lemma start_then_timeouts:
  assumes "validateOffset files fileName offset = Inr file"
    and "isOpen cs" and "status (draft cs) = Ready \<or> status (draft cs) = Paused"
    and "scheduled cs = []"
  shows "\<exists>cs1. step files password (Data (Encoded (Start fileName offset))) cs = (cs1, []) \<and>
           uploading_at cs1 \<lparr>t_fileName = fileName, t_file = file, t_offset = offset\<rparr> \<and>
           (\<forall>k. snd (timeouts files password k cs1) =
                  map Send (take k (chunks \<lparr>t_fileName = fileName, t_file = file, t_offset = offset\<rparr>)))"
proof -
  let ?tr = "\<lparr>t_fileName = fileName, t_file = file, t_offset = offset\<rparr>"
  obtain cs1 where s: "step files password (Data (Encoded (Start fileName offset))) cs = (cs1, [])"
    "uploading_at cs1 ?tr"
    using start_uploading [OF assms] by blast
  have "snd (timeouts files password k cs1) = map Send (take k (chunks ?tr))" for k
  proof (cases "k < length (chunks ?tr)")
    case True
    from timeouts_partial [where files = files and password = password, OF s(2) True]
    show ?thesis by auto
  next
    case False
    then have "length (chunks ?tr) \<le> k" by simp
    from timeouts_complete [where files = files and password = password, OF s(2) this]
    show ?thesis using False by auto
  qed
  then show ?thesis using s by blast
qed

lemma upt_3: "[0..<3] = [0, 1, 2::nat]"
  by code_simp

lemma three_chunks:
  assumes "file_size file = 300000"
  shows "map (spec_chunk fileName file 0) [0..<nat ((file_size file - 0) div MAX_CHUNK_SIZE) + 1]
         = [spec_chunk fileName file 0 0, spec_chunk fileName file 0 1, spec_chunk fileName file 0 2]"
proof -
  have "nat ((file_size file - 0) div MAX_CHUNK_SIZE) + 1 = 3"
    using assms by (simp add: MAX_CHUNK_SIZE_def)
  then show ?thesis by (simp only: upt_3 list.map)
qed

lemma three_chunk_sizes:
  assumes "file_size file = 300000"
  shows "map (\<lambda>m. length (chunk_bytes m))
           [spec_chunk fileName file 0 0, spec_chunk fileName file 0 1, spec_chunk fileName file 0 2]
         = [131072, 131072, 37856]"
    and "map chunk_is_final
           [spec_chunk fileName file 0 0, spec_chunk fileName file 0 1, spec_chunk fileName file 0 2]
         = [False, False, True]"
proof -
  have len: "length (content file) = 300000" using assms by (simp add: file_size_def)
  show "map (\<lambda>m. length (chunk_bytes m))
           [spec_chunk fileName file 0 0, spec_chunk fileName file 0 1, spec_chunk fileName file 0 2]
         = [131072, 131072, 37856]"
    using assms len by (simp add: spec_chunk_def MAX_CHUNK_SIZE_def Let_def)
  show "map chunk_is_final
           [spec_chunk fileName file 0 0, spec_chunk fileName file 0 1, spec_chunk fileName file 0 2]
         = [False, False, True]"
    using assms by (simp add: spec_chunk_def MAX_CHUNK_SIZE_def Let_def)
qed


lemma chunks_take_concat:
  "0 \<le> t_offset tr \<Longrightarrow> t_offset tr \<le> file_size (t_file tr) \<Longrightarrow> k < length (chunks tr) \<Longrightarrow>
   concat (map chunk_bytes (take k (chunks tr))) =
     take (nat (int k * MAX_CHUNK_SIZE)) (drop (nat (t_offset tr)) (content (t_file tr)))"
proof (induction k arbitrary: tr)
  case 0
  then show ?case by simp
next
  case (Suc k)
  let ?bs = "content (t_file tr)"
  have nf: "\<not> chunk_final tr"
  proof
    assume "chunk_final tr"
    then have "chunks tr = [chunk_request tr]" by (subst chunks.simps) simp
    with Suc.prems(3) show False by simp
  qed
  let ?tr = "tr\<lparr>t_offset := chunk_end tr\<rparr>"
  have unf: "chunks tr = chunk_request tr # chunks ?tr"
    using nf by (subst chunks.simps) simp
  have e: "chunk_end tr = t_offset tr + MAX_CHUNK_SIZE" using nf chunk_not_final_end by blast
  have b: "chunk_end tr \<le> file_size (t_file tr)"
    using chunk_end_bounds [OF Suc.prems(2)] by simp
  have here: "chunk_bytes (chunk_request tr) = take (nat MAX_CHUNK_SIZE) (drop (nat (t_offset tr)) ?bs)"
    using chunk_request_range [OF Suc.prems(1,2)] b e by (simp add: chunk_end_def)
  have k: "k < length (chunks ?tr)" using Suc.prems(3) unf by simp
  have "0 \<le> t_offset ?tr" "t_offset ?tr \<le> file_size (t_file ?tr)"
    using Suc.prems(1) e b by (simp_all add: MAX_CHUNK_SIZE_def)
  from Suc.IH [OF this k]
  have ih: "concat (map chunk_bytes (take k (chunks ?tr))) =
     take (nat (int k * MAX_CHUNK_SIZE)) (drop (nat (t_offset tr + MAX_CHUNK_SIZE)) ?bs)"
    using e by simp
  have d: "drop (nat (t_offset tr + MAX_CHUNK_SIZE)) ?bs
         = drop (nat MAX_CHUNK_SIZE) (drop (nat (t_offset tr)) ?bs)"
    using Suc.prems(1) by (simp add: MAX_CHUNK_SIZE_def nat_add_distrib add.commute)
  have n: "nat (int (Suc k) * MAX_CHUNK_SIZE) = nat MAX_CHUNK_SIZE + nat (int k * MAX_CHUNK_SIZE)"
    by (simp add: MAX_CHUNK_SIZE_def nat_add_distrib nat_mult_distrib algebra_simps)
  let ?X = "drop (nat (t_offset tr)) ?bs"
  have ih': "concat (map chunk_bytes (take k (chunks ?tr))) =
     take (nat (int k * MAX_CHUNK_SIZE)) (drop (nat MAX_CHUNK_SIZE) ?X)"
    by (simp only: ih d)
  have "concat (map chunk_bytes (take (Suc k) (chunks tr))) =
        chunk_bytes (chunk_request tr) @ concat (map chunk_bytes (take k (chunks ?tr)))"
    unfolding unf by simp
  also have "\<dots> = take (nat MAX_CHUNK_SIZE) ?X @
        take (nat (int k * MAX_CHUNK_SIZE)) (drop (nat MAX_CHUNK_SIZE) ?X)"
    by (simp only: here ih')
  also have "\<dots> = take (nat MAX_CHUNK_SIZE + nat (int k * MAX_CHUNK_SIZE)) ?X"
    by (simp only: take_add)
  also have "\<dots> = take (nat (int (Suc k) * MAX_CHUNK_SIZE)) ?X"
    by (simp only: n)
  finally show ?case .
qed

lemma find_same:
  "find P xs = Some x \<Longrightarrow> Q x \<Longrightarrow> (\<And>y. Q y \<Longrightarrow> P y) \<Longrightarrow> find Q xs = Some x"
proof (induction xs)
  case Nil
  then show ?case by simp
next
  case (Cons y ys)
  then show ?case by (cases "P y") auto
qed

lemma validateOffset_later:
  assumes "validateOffset files fileName offset = Inr file"
    and "offset \<le> a" and "a \<le> file_size file"
  shows "validateOffset files fileName a = Inr file"
proof -
  let ?P = "\<lambda>f. getFileName f = fileName \<and> offset \<le> file_size f"
  let ?Q = "\<lambda>f. getFileName f = fileName \<and> a \<le> file_size f"
  have f: "find ?P files = Some file"
    using assms(1) by (simp add: validateOffset_def split: option.splits)
  have q: "?Q file" using validateOffset_bound [OF assms(1)] assms(3) by simp
  have "find ?Q files = Some file"
    using find_same [where P = ?P and Q = ?Q, OF f q] assms(2) by auto
  then show ?thesis by (simp add: validateOffset_def)
qed

lemma chunks_hd: "chunk_offset (hd (chunks tr)) = t_offset tr"
  by (subst chunks.simps) (simp add: chunk_request_def)

lemma chunks_offsets_ge: "m \<in> set (chunks tr) \<Longrightarrow> t_offset tr \<le> chunk_offset m"
proof -
  assume "m \<in> set (chunks tr)"
  then have "chunk_offset m \<in> set (map chunk_offset (chunks tr))" by simp
  then obtain i where "chunk_offset m = t_offset tr + int i * MAX_CHUNK_SIZE"
    unfolding chunks_offsets by auto
  then show ?thesis by (simp add: MAX_CHUNK_SIZE_def)
qed

lemma chunks_offsets_ascending: "sorted_wrt (<) (map chunk_offset (chunks tr))"
proof -
  have "sorted_wrt (\<lambda>i j. t_offset tr + int i * MAX_CHUNK_SIZE < t_offset tr + int j * MAX_CHUNK_SIZE)
          [0..<length (chunks tr)]"
    by (rule sorted_wrt_mono_rel [OF _ sorted_wrt_upt]) (simp add: MAX_CHUNK_SIZE_def)
  then show ?thesis
    unfolding chunks_offsets by (simp add: sorted_wrt_map)
qed

lemma chunks_complete_stream:
  "0 \<le> t_offset tr \<Longrightarrow> t_offset tr \<le> file_size (t_file tr) \<Longrightarrow>
   complete_stream (drop (nat (t_offset tr)) (content (t_file tr))) (chunks tr)"
  unfolding complete_stream_def
  using chunks_not_Nil chunks_concat chunks_final chunks_offsets_ascending by blast

lemma transfer_to_completion:
  assumes "validateOffset files fileName offset = Inr file" and "0 \<le> offset"
    and "isOpen cs" and "status (draft cs) = Ready \<or> status (draft cs) = Paused"
    and "scheduled cs = []"
  shows "\<exists>cs1. step files password (Data (Encoded (Start fileName offset))) cs = (cs1, []) \<and>
           uploading_at cs1 \<lparr>t_fileName = fileName, t_file = file, t_offset = offset\<rparr> \<and>
           (\<forall>k. nat ((file_size file - offset) div MAX_CHUNK_SIZE) + 1 \<le> k \<longrightarrow>
              sent (snd (timeouts files password k cs1)) =
                chunks \<lparr>t_fileName = fileName, t_file = file, t_offset = offset\<rparr>)"
proof -
  let ?tr = "\<lparr>t_fileName = fileName, t_file = file, t_offset = offset\<rparr>"
  have le: "offset \<le> file_size file" using validateOffset_bound [OF assms(1)] by simp
  have len: "length (chunks ?tr) = nat ((file_size file - offset) div MAX_CHUNK_SIZE) + 1"
    using chunks_length [of ?tr] le by simp
  obtain cs1 where s: "step files password (Data (Encoded (Start fileName offset))) cs = (cs1, [])"
    and u: "uploading_at cs1 ?tr"
    and t: "\<forall>k. snd (timeouts files password k cs1) = map Send (take k (chunks ?tr))"
    using start_then_timeouts [OF assms(1,3,4,5), of password] by blast
  have "sent (snd (timeouts files password k cs1)) = chunks ?tr"
    if "nat ((file_size file - offset) div MAX_CHUNK_SIZE) + 1 \<le> k" for k
    using t that len by simp
  then show ?thesis using s u by blast
qed


section \<open>Properties of the handlers\<close>

lemma onClose_fields [simp]:
  "isOpen (onClose cs) = isOpen cs"
  "dataConnection (draft (onClose cs)) = dataConnection (draft cs)"
  "status (draft (onClose cs)) =
     (if status (draft cs) = InvalidPassword \<or> status (draft cs) = Done
      then status (draft cs) else Closed)"
  by (cases "sendChunkTimeout cs"; simp add: onClose_def clearTimeout_def Let_def)+

lemma onClose_scheduled_Nil [simp]: "scheduled cs = [] \<Longrightarrow> scheduled (onClose cs) = []"
  by (cases "sendChunkTimeout cs") (simp_all add: onClose_def clearTimeout_def Let_def)

lemma conn_close_fields:
  "dataConnection (draft (fst (conn_close cs))) = dataConnection (draft cs)"
  "\<not> isOpen (fst (conn_close cs))"
  "snd (conn_close cs) = (if isOpen cs then [Close] else [])"
  by (simp_all add: conn_close_def)

lemma timeoutCallback_fields:
  "dataConnection (draft (fst (timeoutCallback tr cs))) = dataConnection (draft cs)"
  "isOpen (fst (timeoutCallback tr cs)) = isOpen cs"
  "\<not> isOpen cs \<Longrightarrow> snd (timeoutCallback tr cs) = []"
  by (simp_all add: timeoutCallback_def setTimeout_def conn_send_def Let_def)

lemma onData_handle:
  "dataConnection (draft (fst (onData files password d cs))) = dataConnection (draft cs)"
proof (cases d)
  case Malformed
  then show ?thesis by (simp add: onData_def catchBlock_def conn_close_fields)
next
  case (Encoded m)
  show ?thesis
  proof (cases m)
    case (Start fileName offset)
    then show ?thesis using Encoded
      by (cases "validateOffset files fileName offset")
         (simp_all add: onData_def onStart_def catchBlock_def conn_close_fields setTimeout_def)
  next
    case Pause
    then show ?thesis using Encoded
      by (cases "sendChunkTimeout cs") (simp_all add: onData_def onPause_def clearTimeout_def)
  next
    case DoneMsg
    then show ?thesis using Encoded
      by (simp add: onData_def onDone_def split_beta)
  qed (use Encoded in \<open>simp_all add: onData_def onRequestInfo_def onUsePassword_def\<close>)
qed

lemma step_handle:
  "dataConnection (draft (fst (step files password ev cs))) = dataConnection (draft cs)"
proof (cases ev)
  case (Data d)
  then show ?thesis by (simp add: onData_handle)
next
  case TransportClose
  then show ?thesis by simp
next
  case (Timeout t)
  then show ?thesis
    by (cases "map_of (scheduled cs) t") (simp_all add: timeoutCallback_fields clearTimeout_def)
qed

lemma step_closed:
  assumes "\<not> isOpen cs"
  shows "\<not> isOpen (fst (step files password ev cs)) \<and> snd (step files password ev cs) = []"
proof (cases ev)
  case (Data d)
  then show ?thesis using assms by simp
next
  case TransportClose
  then show ?thesis using assms by simp
next
  case (Timeout t)
  then show ?thesis using assms
    by (cases "map_of (scheduled cs) t") (simp_all add: timeoutCallback_fields clearTimeout_def)
qed

lemma run_single: "run files password [ev] cs = step files password ev cs"
  by (simp add: split_beta)


section \<open>Reachable connection states\<close>

lemma consistent_iff:
  "consistent cs \<longleftrightarrow>
     (scheduled cs = [] \<or> (\<exists>tr. uploading_at cs tr)) \<and>
     (status (draft cs) = Ready \<or> status (draft cs) = Uploading \<or> status (draft cs) = Paused
        \<longrightarrow> isOpen cs)"
  by (auto simp: consistent_def uploading_at_iff split: list.splits)

lemma consistent_cases:
  assumes "consistent cs"
  obtains (idle) "scheduled cs = []" "status (draft cs) = Ready \<or> status (draft cs) = Uploading \<or> status (draft cs) = Paused \<Longrightarrow> isOpen cs"
  | (busy) t tr where "scheduled cs = [(t, tr)]" "sendChunkTimeout cs = Some t"
      "status (draft cs) = Uploading" "isOpen cs"
  using assms unfolding consistent_iff uploading_at_iff by blast

lemma consistent_idleI:
  "scheduled cs = [] \<Longrightarrow>
   (status (draft cs) = Ready \<or> status (draft cs) = Uploading \<or> status (draft cs) = Paused \<Longrightarrow> isOpen cs) \<Longrightarrow>
   consistent cs"
  by (auto simp: consistent_iff)

lemma consistent_busyI:
  "scheduled cs = [(t, tr)] \<Longrightarrow> sendChunkTimeout cs = Some t \<Longrightarrow> status (draft cs) = Uploading \<Longrightarrow>
   isOpen cs \<Longrightarrow> consistent cs"
  by (auto simp: consistent_iff uploading_at_iff)

lemma onClose_consistent:
  assumes "consistent cs"
  shows "consistent (onClose (cs\<lparr>isOpen := False\<rparr>))"
  using assms
proof (cases rule: consistent_cases)
  case idle
  then show ?thesis
    by (intro consistent_idleI) (auto split: if_splits)
next
  case (busy t tr)
  then show ?thesis
    by (intro consistent_idleI) (auto simp: onClose_def clearTimeout_def Let_def)
qed

lemma catchBlock_consistent:
  assumes "consistent cs" and "isOpen cs"
  shows "consistent (fst (catchBlock cs))"
proof -
  have "consistent (onClose (cs\<lparr>draft := (draft cs)\<lparr>status := Closed\<rparr>, isOpen := False\<rparr>))"
    using assms(1)
  proof (cases rule: consistent_cases)
    case idle
    then show ?thesis by (intro consistent_idleI) (auto split: if_splits)
  next
    case (busy t tr)
    then show ?thesis
      by (intro consistent_idleI) (auto simp: onClose_def clearTimeout_def Let_def)
  qed
  then show ?thesis using assms(2) by (simp add: catchBlock_def conn_close_def)
qed

lemma onRequestInfo_consistent:
  assumes "consistent cs" and "isOpen cs"
  shows "consistent (fst (onRequestInfo files password info cs))"
  using assms(1)
proof (cases rule: consistent_cases)
  case idle
  then show ?thesis using assms(2)
    by (intro consistent_idleI) (auto simp: onRequestInfo_def)
next
  case (busy t tr)
  then show ?thesis
    by (intro consistent_busyI [of _ t tr]) (auto simp: onRequestInfo_def)
qed

lemma onUsePassword_consistent:
  assumes "consistent cs" and "isOpen cs"
  shows "consistent (fst (onUsePassword files password p cs))"
  using assms(1)
proof (cases rule: consistent_cases)
  case idle
  then show ?thesis using assms(2)
    by (intro consistent_idleI) (auto simp: onUsePassword_def)
next
  case (busy t tr)
  then show ?thesis
    by (intro consistent_busyI [of _ t tr]) (auto simp: onUsePassword_def)
qed

lemma onStart_consistent:
  assumes "consistent cs" and "isOpen cs"
  shows "consistent (fst (onStart files fileName offset cs))"
proof (cases "validateOffset files fileName offset")
  case (Inl e)
  then show ?thesis using catchBlock_consistent [OF assms] by (simp add: onStart_def)
next
  case (Inr f)
  show ?thesis using assms(1)
  proof (cases rule: consistent_cases)
    case idle
    show ?thesis
    proof (cases "status (draft cs) \<noteq> Ready \<and> status (draft cs) \<noteq> Paused")
      case True
      then show ?thesis using Inr assms(1) by (simp add: onStart_def)
    next
      case False
      then show ?thesis using Inr idle assms(2)
        by (intro consistent_busyI [of _ "nextTimeout cs" "\<lparr>t_fileName = fileName, t_file = f, t_offset = offset\<rparr>"])
           (auto simp: onStart_def setTimeout_def)
    qed
  next
    case (busy t tr)
    then show ?thesis using Inr assms(1) by (simp add: onStart_def)
  qed
qed

lemma onPause_consistent:
  assumes "consistent cs" and "isOpen cs"
  shows "consistent (fst (onPause cs))"
  using assms(1)
proof (cases rule: consistent_cases)
  case idle
  then show ?thesis using assms(2)
    by (cases "sendChunkTimeout cs"; intro consistent_idleI)
       (auto simp: onPause_def clearTimeout_def)
next
  case (busy t tr)
  then show ?thesis
    by (intro consistent_idleI) (auto simp: onPause_def clearTimeout_def)
qed

lemma onDone_consistent:
  assumes "consistent cs" and "isOpen cs"
  shows "consistent (fst (onDone cs))"
  using assms(1)
proof (cases rule: consistent_cases)
  case idle
  then show ?thesis using assms
    by (cases "status (draft cs) = Ready")
       (auto simp: onDone_def conn_close_def intro!: consistent_idleI)
next
  case (busy t tr)
  then show ?thesis using assms(1) by (simp add: onDone_def)
qed

lemma onData_consistent:
  assumes "consistent cs" and "isOpen cs"
  shows "consistent (fst (onData files password d cs))"
proof (cases d)
  case Malformed
  then show ?thesis using catchBlock_consistent [OF assms] by (simp add: onData_def)
next
  case (Encoded m)
  then show ?thesis
    using assms(1) onRequestInfo_consistent [OF assms] onUsePassword_consistent [OF assms]
      onStart_consistent [OF assms] onPause_consistent [OF assms] onDone_consistent [OF assms]
    by (cases m) (simp_all add: onData_def)
qed

lemma timeoutCallback_consistent:
  assumes "scheduled cs = []" and "isOpen cs" and "status (draft cs) = Uploading"
  shows "consistent (fst (timeoutCallback tr cs))"
proof (cases "chunk_final tr")
  case True
  then show ?thesis using assms
    by (intro consistent_idleI) (auto simp: timeoutCallback_def Let_def)
next
  case False
  then show ?thesis using assms
    by (intro consistent_busyI [of _ "nextTimeout cs" "tr\<lparr>t_offset := chunk_end tr\<rparr>"])
       (auto simp: timeoutCallback_def setTimeout_def Let_def)
qed

lemma step_consistent:
  assumes "consistent cs"
  shows "consistent (fst (step files password ev cs))"
proof (cases ev)
  case (Data d)
  then show ?thesis using assms onData_consistent [OF assms] by simp
next
  case TransportClose
  then show ?thesis using assms onClose_consistent [OF assms] by simp
next
  case (Timeout t)
  show ?thesis using assms
  proof (cases rule: consistent_cases)
    case idle
    then show ?thesis using Timeout assms by simp
  next
    case (busy t' tr)
    show ?thesis
    proof (cases "t = t'")
      case True
      have "scheduled (clearTimeout t cs) = []" "isOpen (clearTimeout t cs)"
        "status (draft (clearTimeout t cs)) = Uploading"
        using busy True by (simp_all add: clearTimeout_def)
      from timeoutCallback_consistent [OF this] show ?thesis
        using Timeout busy True by simp
    next
      case False
      then show ?thesis using Timeout busy assms by simp
    qed
  qed
qed

lemma run_consistent:
  "consistent cs \<Longrightarrow> consistent (fst (run files password evs cs))"
proof (induction evs arbitrary: cs)
  case Nil
  then show ?case by simp
next
  case (Cons ev evs)
  from Cons.IH [OF step_consistent [OF Cons.prems]] show ?case
    by (simp add: split_beta)
qed

lemma newConn_consistent: "consistent (newConn conn files)"
  by (simp add: consistent_iff newConn_def)

lemma reachable_idle:
  assumes "run files password evs (newConn conn files) = (cs, acts)"
    and "status (draft cs) = Ready \<or> status (draft cs) = Paused"
  shows "isOpen cs \<and> scheduled cs = []"
proof -
  have "consistent cs"
    using run_consistent [OF newConn_consistent, of files password evs conn files] assms(1) by simp
  then show ?thesis using assms(2) by (auto simp: consistent_iff uploading_at_iff)
qed

section \<open>A transfer from an idle connection\<close>

lemma idle_start_emits:
  assumes "validateOffset files fileName offset = Inr file" and "0 \<le> offset"
    and "isOpen cs" and "status (draft cs) = Ready \<or> status (draft cs) = Paused"
    and "scheduled cs = []"
  shows "\<exists>cs1. step files password (Data (Encoded (Start fileName offset))) cs = (cs1, []) \<and>
     (\<forall>k. sent (snd (timeouts files password k cs1)) =
           take k (map (spec_chunk fileName file offset)
                     [0..<nat ((file_size file - offset) div MAX_CHUNK_SIZE) + 1])) \<and>
     MAX_CHUNK_SIZE = 131072 \<and>
     (file_size file = 300000 \<and> offset = 0 \<longrightarrow>
        (\<forall>k. 3 \<le> k \<longrightarrow>
           map (\<lambda>m. length (chunk_bytes m)) (sent (snd (timeouts files password k cs1)))
             = [131072, 131072, 37856] \<and>
           map chunk_is_final (sent (snd (timeouts files password k cs1)))
             = [False, False, True]))"
proof -
  let ?tr = "\<lparr>t_fileName = fileName, t_file = file, t_offset = offset\<rparr>"
  let ?L = "map (spec_chunk fileName file offset)
              [0..<nat ((file_size file - offset) div MAX_CHUNK_SIZE) + 1]"
  have le: "offset \<le> file_size file" using validateOffset_bound [OF assms(1)] by simp
  obtain cs1 where s: "step files password (Data (Encoded (Start fileName offset))) cs = (cs1, [])"
    and t: "\<And>k. snd (timeouts files password k cs1) = map Send (take k (chunks ?tr))"
    using start_then_timeouts [OF assms(1,3,4,5), of password] by blast
  have cf: "chunks ?tr = ?L" using chunks_closed_form [OF assms(2) le] .
  have gen: "sent (snd (timeouts files password k cs1)) = take k ?L" for k
    using t [of k] cf by (simp only: sent_map_Send)
  have scen: "map (\<lambda>m. length (chunk_bytes m)) (sent (snd (timeouts files password k cs1)))
             = [131072, 131072, 37856] \<and>
           map chunk_is_final (sent (snd (timeouts files password k cs1)))
             = [False, False, True]"
    if "file_size file = 300000" "offset = 0" "3 \<le> k" for k
  proof -
    have "take k ?L = [spec_chunk fileName file 0 0, spec_chunk fileName file 0 1, spec_chunk fileName file 0 2]"
      using three_chunks [OF that(1), of fileName] that(2,3) by simp
    then show ?thesis
      using gen [of k] three_chunk_sizes [OF that(1), of fileName] by simp
  qed
  have c: "MAX_CHUNK_SIZE = 131072" by (simp add: MAX_CHUNK_SIZE_def)
  show ?thesis
    apply (rule exI [of _ cs1])
    apply (intro conjI allI impI)
        apply (rule s)
       apply (rule gen)
      apply (rule c)
     apply (simp add: scen)
    apply (simp add: scen)
    done
qed

lemma idle_start_reconstructs:
  assumes "validateOffset files fileName offset = Inr file" and "0 \<le> offset"
    and "isOpen cs" and "status (draft cs) = Ready \<or> status (draft cs) = Paused"
    and "scheduled cs = []"
  shows "\<exists>cs1. step files password (Data (Encoded (Start fileName offset))) cs = (cs1, []) \<and>
     (\<forall>k. nat ((file_size file - offset) div MAX_CHUNK_SIZE) + 1 \<le> k \<longrightarrow>
        complete_stream (drop (nat offset) (content file))
          (sent (snd (timeouts files password k cs1)))) \<and>
     (\<forall>k a. k < nat ((file_size file - offset) div MAX_CHUNK_SIZE) + 1 \<and>
            offset \<le> a \<and> a \<le> offset + int k * MAX_CHUNK_SIZE \<longrightarrow>
        (\<exists>cs2 before cs3 cs4.
           timeouts files password k cs1 = (cs2, before) \<and>
           status (draft cs2) = Uploading \<and>
           step files password (Data (Encoded Pause)) cs2 = (cs3, []) \<and>
           status (draft cs3) = Paused \<and>
           (\<forall>j. timeouts files password j cs3 = (cs3, [])) \<and>
           step files password (Data (Encoded (Start fileName a))) cs3 = (cs4, []) \<and>
           status (draft cs4) = Uploading \<and>
           (\<forall>j. nat ((file_size file - offset) div MAX_CHUNK_SIZE) + 1 \<le> j \<longrightarrow>
              complete_stream (drop (nat a) (content file))
                (sent (snd (timeouts files password j cs4))) \<and>
              chunk_offset (hd (sent (snd (timeouts files password j cs4)))) = a \<and>
              (\<forall>m\<in>set (sent (snd (timeouts files password j cs4))). a \<le> chunk_offset m) \<and>
              take (nat (a - offset)) (concat (map chunk_bytes (sent before))) @
                concat (map chunk_bytes (sent (snd (timeouts files password j cs4))))
                = drop (nat offset) (content file))))"
proof -
  let ?tr = "\<lparr>t_fileName = fileName, t_file = file, t_offset = offset\<rparr>"
  let ?n = "nat ((file_size file - offset) div MAX_CHUNK_SIZE) + 1"
  let ?bs = "content file"
  have le: "offset \<le> file_size file" using validateOffset_bound [OF assms(1)] by simp
  have len: "length (chunks ?tr) = ?n"
    using chunks_length [of ?tr] le by simp
  obtain cs1 where s: "step files password (Data (Encoded (Start fileName offset))) cs = (cs1, [])"
    and u: "uploading_at cs1 ?tr"
    and t: "\<forall>k. ?n \<le> k \<longrightarrow> sent (snd (timeouts files password k cs1)) = chunks ?tr"
    using transfer_to_completion [OF assms, of password] by blast
  have part1: "complete_stream (drop (nat offset) ?bs) (sent (snd (timeouts files password k cs1)))"
    if "?n \<le> k" for k
    using t that chunks_complete_stream [of ?tr] assms(2) le by simp
  have part2: "\<exists>cs2 before cs3 cs4.
           timeouts files password k cs1 = (cs2, before) \<and>
           status (draft cs2) = Uploading \<and>
           step files password (Data (Encoded Pause)) cs2 = (cs3, []) \<and>
           status (draft cs3) = Paused \<and>
           (\<forall>j. timeouts files password j cs3 = (cs3, [])) \<and>
           step files password (Data (Encoded (Start fileName a))) cs3 = (cs4, []) \<and>
           status (draft cs4) = Uploading \<and>
           (\<forall>j. ?n \<le> j \<longrightarrow>
              complete_stream (drop (nat a) ?bs)
                (sent (snd (timeouts files password j cs4))) \<and>
              chunk_offset (hd (sent (snd (timeouts files password j cs4)))) = a \<and>
              (\<forall>m\<in>set (sent (snd (timeouts files password j cs4))). a \<le> chunk_offset m) \<and>
              take (nat (a - offset)) (concat (map chunk_bytes (sent before))) @
                concat (map chunk_bytes (sent (snd (timeouts files password j cs4))))
                = drop (nat offset) ?bs)"
    if k: "k < ?n" and a1: "offset \<le> a" and a2: "a \<le> offset + int k * MAX_CHUNK_SIZE" for k a
  proof -
    let ?tra = "\<lparr>t_fileName = fileName, t_file = file, t_offset = a\<rparr>"
    have kl: "k < length (chunks ?tr)" using k len by simp
    have kb: "offset + int k * MAX_CHUNK_SIZE \<le> file_size file"
      using chunk_index_bound [of ?tr k] le kl by simp
    have ale: "a \<le> file_size file" using a2 kb by simp
    have a0: "0 \<le> a" using assms(2) a1 by simp
    obtain cs2 where p: "timeouts files password k cs1 = (cs2, map Send (take k (chunks ?tr)))"
      and u2: "uploading_at cs2 (?tr\<lparr>t_offset := t_offset ?tr + int k * MAX_CHUNK_SIZE\<rparr>)"
      using timeouts_partial [where files = files and password = password, OF u kl] by blast
    obtain cs3 where q: "step files password (Data (Encoded Pause)) cs2 = (cs3, [])"
      and q3: "isOpen cs3" "status (draft cs3) = Paused" "scheduled cs3 = []"
      using pause_uploading [where files = files and password = password, OF u2] by blast
    have va: "validateOffset files fileName a = Inr file"
      using validateOffset_later [OF assms(1) a1 ale] .
    have q3': "status (draft cs3) = Ready \<or> status (draft cs3) = Paused" using q3(2) by simp
    obtain cs4 where r: "step files password (Data (Encoded (Start fileName a))) cs3 = (cs4, [])"
      and u4: "uploading_at cs4 ?tra"
      and t4: "\<forall>j. nat ((file_size file - a) div MAX_CHUNK_SIZE) + 1 \<le> j \<longrightarrow>
                 sent (snd (timeouts files password j cs4)) = chunks ?tra"
      using transfer_to_completion [OF va a0 q3(1) q3' q3(3), of password] by blast
    have mono: "nat ((file_size file - a) div MAX_CHUNK_SIZE) + 1 \<le> ?n"
    proof -
      have "(file_size file - a) div MAX_CHUNK_SIZE \<le> (file_size file - offset) div MAX_CHUNK_SIZE"
        using a1 by (intro zdiv_mono1) (simp_all add: MAX_CHUNK_SIZE_def)
      then show ?thesis by simp
    qed
    have after: "sent (snd (timeouts files password j cs4)) = chunks ?tra" if "?n \<le> j" for j
      using t4 mono that by simp
    have before: "concat (map chunk_bytes (take k (chunks ?tr))) =
        take (nat (int k * MAX_CHUNK_SIZE)) (drop (nat offset) ?bs)"
      using chunks_take_concat [of ?tr k] assms(2) le kl by simp
    let ?X = "drop (nat offset) ?bs"
    have "take (nat (a - offset)) (take (nat (int k * MAX_CHUNK_SIZE)) ?X) = take (nat (a - offset)) ?X"
      using a2 by (simp add: min_def)
    then have tk: "take (nat (a - offset)) (concat (map chunk_bytes (take k (chunks ?tr))))
          = take (nat (a - offset)) ?X"
      by (simp only: before)
    have "nat a = nat (a - offset) + nat offset"
      using a1 assms(2) by simp
    then have "drop (nat a) ?bs = drop (nat (a - offset)) ?X"
      by (simp only: drop_drop)
    moreover have "concat (map chunk_bytes (chunks ?tra)) = drop (nat a) ?bs"
      using chunks_concat [of ?tra] a0 ale by simp
    ultimately have dr: "concat (map chunk_bytes (chunks ?tra)) = drop (nat (a - offset)) ?X"
      by (simp only:)
    have glue:
      "take (nat (a - offset)) (concat (map chunk_bytes (take k (chunks ?tr)))) @
         concat (map chunk_bytes (chunks ?tra)) = drop (nat offset) ?bs"
      by (simp only: tk dr append_take_drop_id)
    have cs: "complete_stream (drop (nat a) ?bs) (chunks ?tra)"
      using chunks_complete_stream [of ?tra] a0 ale by simp
    have hd: "chunk_offset (hd (chunks ?tra)) = a" using chunks_hd [of ?tra] by simp
    have ge: "\<forall>m\<in>set (chunks ?tra). a \<le> chunk_offset m"
      using chunks_offsets_ge [of _ ?tra] by simp
    have st2: "status (draft cs2) = Uploading" using u2 by (simp add: uploading_at_iff)
    have st4: "status (draft cs4) = Uploading" using u4 by (simp add: uploading_at_iff)
    have idle: "\<forall>j. timeouts files password j cs3 = (cs3, [])"
      using timeouts_idle [OF q3(3)] by simp
    have fin: "\<forall>j. ?n \<le> j \<longrightarrow>
              complete_stream (drop (nat a) ?bs)
                (sent (snd (timeouts files password j cs4))) \<and>
              chunk_offset (hd (sent (snd (timeouts files password j cs4)))) = a \<and>
              (\<forall>m\<in>set (sent (snd (timeouts files password j cs4))). a \<le> chunk_offset m) \<and>
              take (nat (a - offset)) (concat (map chunk_bytes (sent (map Send (take k (chunks ?tr)))))) @
                concat (map chunk_bytes (sent (snd (timeouts files password j cs4))))
                = drop (nat offset) ?bs"
      using after cs hd ge glue by simp
    show ?thesis
      apply (rule exI [of _ cs2])
      apply (rule exI [of _ "map Send (take k (chunks ?tr))"])
      apply (rule exI [of _ cs3])
      apply (rule exI [of _ cs4])
      apply (intro conjI)
             apply (rule p)
            apply (rule st2)
           apply (rule q)
          apply (rule q3(2))
         apply (rule idle)
        apply (rule r)
       apply (rule st4)
      apply (rule fin)
      done
  qed
  show ?thesis
    apply (rule exI [of _ cs1])
    apply (intro conjI allI impI)
      apply (rule s)
     apply (erule part1)
    apply (erule conjE)+
    apply (erule (2) part2)
    done
qed

section \<open>Transport close\<close>

text \<open>
  C7: on transport close the connection's status becomes \<open>Closed\<close>, except that a
  connection in \<open>InvalidPassword\<close> or \<open>Done\<close> keeps its status. This holds for the
  \<^verbatim>\<open>close\<close> handler itself and for the event on an open channel, which also marks the
  channel closed.
\<close>

theorem transport_close_status:
  "status (draft (onClose cs)) =
     (if status (draft cs) = InvalidPassword \<or> status (draft cs) = Done
      then status (draft cs) else Closed) \<and>
   (isOpen cs \<longrightarrow>
      \<not> isOpen (fst (step files password TransportClose cs)) \<and>
      status (draft (fst (step files password TransportClose cs))) =
        (if status (draft cs) = InvalidPassword \<or> status (draft cs) = Done
         then status (draft cs) else Closed))"
  by (cases "sendChunkTimeout cs") (simp_all add: onClose_def clearTimeout_def Let_def)

text \<open>Instances: a \<open>Pending\<close> connection becomes \<open>Closed\<close>; \<open>InvalidPassword\<close> is kept.\<close>

theorem transport_close_status_witness:
  "isOpen (newConn 0 []) \<and>
   status (draft (fst (step [] ''pw'' TransportClose (newConn 0 [])))) = Closed \<and>
   status (draft (onClose ((newConn 0 [])\<lparr>draft := (draft (newConn 0 []))\<lparr>status := InvalidPassword\<rparr>\<rparr>)))
     = InvalidPassword"
  using transport_close_status [of "newConn 0 []" "[]" "''pw''"]
    transport_close_status [of "(newConn 0 [])\<lparr>draft := (draft (newConn 0 []))\<lparr>status := InvalidPassword\<rparr>\<rparr>" "[]" "''pw''"]
  by (simp add: newConn_def)

section \<open>RequestInfo outside Pending\<close>

text \<open>
  C8, as the code has it: a \<^verbatim>\<open>RequestInfo\<close> arriving on an open connection that is not
  \<open>Pending\<close> leaves the connection's state unchanged, but the reply is sent all the same:
  \<^verbatim>\<open>PasswordRequired\<close> when a password is configured, \<^verbatim>\<open>Info\<close> otherwise. Only the
  state update is guarded by the status.
\<close>

theorem requestInfo_outside_pending:
  "isOpen cs \<Longrightarrow> status (draft cs) \<noteq> Pending \<Longrightarrow>
   step files password (Data (Encoded (RequestInfo info))) cs =
     (cs, [Send (if password \<noteq> [] then PasswordRequired None else Info (fileInfo files))])"
  by (simp add: onData_def onRequestInfo_def conn_send_def)

text \<open>
  The reply is not suppressed: without a password, the first \<^verbatim>\<open>RequestInfo\<close> makes the
  connection \<open>Ready\<close>, and a second one is answered with \<^verbatim>\<open>Info\<close> again.
\<close>

theorem requestInfo_outside_pending_counterexample:
  "status (draft (fst (step [] [] (Data (Encoded (RequestInfo a_client))) (newConn 0 [])))) = Ready \<and>
   snd (step [] [] (Data (Encoded (RequestInfo a_client)))
          (fst (step [] [] (Data (Encoded (RequestInfo a_client))) (newConn 0 []))))
     = [Send (Info [])]"
  by (simp add: onData_def onRequestInfo_def conn_send_def newConn_def fileInfo_def)

text \<open>The same run as an instance of the theorem.\<close>

theorem requestInfo_outside_pending_witness:
  "step [] [] (Data (Encoded (RequestInfo a_client)))
      (fst (step [] [] (Data (Encoded (RequestInfo a_client))) (newConn 0 [])))
   = (fst (step [] [] (Data (Encoded (RequestInfo a_client))) (newConn 0 [])), [Send (Info [])])"
  using requestInfo_outside_pending [of "fst (step [] [] (Data (Encoded (RequestInfo a_client))) (newConn 0 []))" "[]" "[]" a_client]
  by (simp add: onData_def onRequestInfo_def conn_send_def newConn_def fileInfo_def)

section \<open>When Info is sent\<close>

lemma step_Info:
  "step files password ev cs = (cs1, acts) \<Longrightarrow> Send (Info fi) \<in> set acts \<Longrightarrow>
   (password = [] \<and> (\<exists>info. ev = Data (Encoded (RequestInfo info)))) \<or>
   ev = Data (Encoded (UsePassword password))"
proof (cases ev)
  case (Data d)
  assume a: "step files password ev cs = (cs1, acts)" "Send (Info fi) \<in> set acts"
  show ?thesis
  proof (cases d)
    case (Encoded m)
    show ?thesis using a Data Encoded
      by (cases m)
         (auto simp: onData_def onRequestInfo_def onUsePassword_def onStart_def onPause_def
            onDone_def catchBlock_def conn_close_def conn_send_def Let_def
            split: if_splits sum.splits prod.splits)
  next
    case Malformed
    then show ?thesis using a Data
      by (auto simp: onData_def catchBlock_def conn_close_def split: if_splits)
  qed
next
  case TransportClose
  assume "step files password ev cs = (cs1, acts)" "Send (Info fi) \<in> set acts"
  then show ?thesis using TransportClose by (auto split: if_splits)
next
  case (Timeout t)
  assume "step files password ev cs = (cs1, acts)" "Send (Info fi) \<in> set acts"
  then show ?thesis using Timeout
    by (auto simp: timeoutCallback_def conn_send_def chunk_request_def Let_def
        split: option.splits if_splits)
qed

text \<open>
  C6, as the code has it: whatever events a connection goes through, an \<^verbatim>\<open>Info\<close> message
  is sent to it only if it has sent a \<^verbatim>\<open>RequestInfo\<close> while no password is configured,
  or a \<^verbatim>\<open>UsePassword\<close> whose candidate equals the configured password. The reply to a
  matching \<^verbatim>\<open>UsePassword\<close> does not depend on the status, so a \<^verbatim>\<open>RequestInfo\<close> need not
  have come first.
\<close>

theorem info_only_on_request_or_password:
  "run files password evs cs = (cs1, acts) \<Longrightarrow> Send (Info fi) \<in> set acts \<Longrightarrow>
   (password = [] \<and> (\<exists>info. Data (Encoded (RequestInfo info)) \<in> set evs)) \<or>
   Data (Encoded (UsePassword password)) \<in> set evs"
proof (induction evs arbitrary: cs cs1 acts)
  case Nil
  then show ?case by simp
next
  case (Cons ev evs)
  obtain c1 a1 where s: "step files password ev cs = (c1, a1)" by (cases "step files password ev cs")
  obtain c2 a2 where r: "run files password evs c1 = (c2, a2)" by (cases "run files password evs c1")
  from Cons.prems s r have "acts = a1 @ a2" by simp
  with Cons.prems(2) consider "Send (Info fi) \<in> set a1" | "Send (Info fi) \<in> set a2" by auto
  then show ?case
  proof cases
    case 1
    from step_Info [OF s 1] show ?thesis by auto
  next
    case 2
    from Cons.IH [OF r 2] show ?thesis by auto
  qed
qed

text \<open>
  A fresh connection that sends only the right password, and never \<^verbatim>\<open>RequestInfo\<close>,
  receives \<^verbatim>\<open>Info\<close> (and stays \<open>Pending\<close>).
\<close>

theorem info_without_requestInfo_counterexample:
  "run [] ''secret'' [Data (Encoded (UsePassword ''secret''))] (newConn 0 [])
     = (newConn 0 [], [Send (Info [])])"
  by (simp add: onData_def onUsePassword_def conn_send_def newConn_def fileInfo_def)

text \<open>The same run as an instance of the theorem.\<close>

theorem info_only_on_request_or_password_witness:
  "run [] ''secret'' [Data (Encoded (UsePassword ''secret''))] (newConn 0 []) = (newConn 0 [], [Send (Info [])])
   \<and> Send (Info []) \<in> set [Send (Info [])]
   \<and> Data (Encoded (UsePassword ''secret'')) \<in> set [Data (Encoded (UsePassword ''secret''))]"
  using info_only_on_request_or_password [of "[]" "''secret''" "[Data (Encoded (UsePassword ''secret''))]" "newConn 0 []" "newConn 0 []" "[Send (Info [])]" "[]"]
  by (simp add: onData_def onUsePassword_def conn_send_def newConn_def fileInfo_def)

section \<open>Validation of Start\<close>

text \<open>
  C3: a \<^verbatim>\<open>Start{fileName, offset}\<close> arriving on a connection that has become \<open>Ready\<close>
  or \<open>Paused\<close> is rejected, the connection being closed and marked \<open>Closed\<close>, unless some
  offered file has that name and a size of at least \<open>offset\<close>; in that case the connection
  moves to \<open>Uploading\<close>. In particular the message is rejected when \<open>offset\<close> exceeds the
  size of every file of that name, whatever the size.
\<close>

theorem start_validation:
  assumes "run files password evs (newConn conn files) = (cs, acts0)"
    and "status (draft cs) = Ready \<or> status (draft cs) = Paused"
  shows "(\<not> (\<exists>f\<in>set files. getFileName f = fileName \<and> offset \<le> file_size f) \<longrightarrow>
            (\<exists>cs1. step files password (Data (Encoded (Start fileName offset))) cs = (cs1, [Close]) \<and>
                   \<not> isOpen cs1 \<and> status (draft cs1) = Closed)) \<and>
         ((\<exists>f\<in>set files. getFileName f = fileName \<and> offset \<le> file_size f) \<longrightarrow>
            (\<exists>cs1. step files password (Data (Encoded (Start fileName offset))) cs = (cs1, []) \<and>
                   isOpen cs1 \<and> status (draft cs1) = Uploading))"
proof -
  have op: "isOpen cs" using reachable_idle [OF assms] by simp
  let ?P = "\<lambda>file. getFileName file = fileName \<and> offset \<le> file_size file"
  have none: "find ?P files = None \<longleftrightarrow> \<not> (\<exists>f\<in>set files. ?P f)"
    by (auto simp: find_None_iff)
  show ?thesis
  proof (cases "find ?P files")
    case None
    then show ?thesis using op assms(2) none
      by (cases "sendChunkTimeout cs")
         (auto simp: onData_def onStart_def validateOffset_def catchBlock_def conn_close_def
            onClose_def clearTimeout_def Let_def)
  next
    case (Some f)
    then have "\<exists>f\<in>set files. ?P f" using none by auto
    then show ?thesis using op assms(2) Some
      by (auto simp: onData_def onStart_def validateOffset_def setTimeout_def)
  qed
qed

text \<open>
  Instance: with one empty file offered, \<^verbatim>\<open>Start\<close> at offset 1 closes the connection, and
  \<^verbatim>\<open>Start\<close> at offset 0 is accepted.
\<close>

theorem start_validation_witness:
  "status (draft (ready_conn [empty_file])) = Ready \<and>
   file_size empty_file = 0 \<and>
   snd (step [empty_file] [] (Data (Encoded (Start ''a.txt'' 1))) (ready_conn [empty_file])) = [Close] \<and>
   status (draft (fst (step [empty_file] [] (Data (Encoded (Start ''a.txt'' 1))) (ready_conn [empty_file]))))
     = Closed \<and>
   status (draft (fst (step [empty_file] [] (Data (Encoded (Start ''a.txt'' 0))) (ready_conn [empty_file]))))
     = Uploading"
proof -
  have e: "run [empty_file] [] [Data (Encoded (RequestInfo a_client))] (newConn 0 [empty_file])
      = (ready_conn [empty_file],
         snd (step [empty_file] [] (Data (Encoded (RequestInfo a_client))) (newConn 0 [empty_file])))"
    by (simp add: run_single ready_conn_def)
  have r: "status (draft (ready_conn [empty_file])) = Ready \<or>
           status (draft (ready_conn [empty_file])) = Paused"
    by (simp add: ready_conn_def newConn_def onData_def onRequestInfo_def)
  show ?thesis
    using start_validation [OF e r, of "''a.txt''" 1] start_validation [OF e r, of "''a.txt''" 0]
    by (auto simp: ready_conn_def newConn_def onData_def onRequestInfo_def empty_file_def
        getFileName_def file_size_def)
qed

section \<open>The destroy endpoint\<close>

text \<open>
  C10: a request whose body has no \<open>slug\<close> member, or whose \<open>slug\<close> is the empty string,
  is answered with status 400 and the repository is left as it was, whatever the
  repository's \<^verbatim>\<open>destroyChannel\<close> would do: it is not called.
\<close>

theorem destroy_requires_slug:
  assumes "destructure_slug body = Inr None \<or> destructure_slug body = Inr (Some (JString []))"
  shows "POST destroyChannel' (Some body) repo =
           Inr (\<lparr>json = JObject [(''error'', JString ''Slug is required'')], statusCode = 400\<rparr>, repo)"
  using assms by (auto simp: POST_def)

text \<open>Instances: a body without \<open>slug\<close>, and a body with an empty \<open>slug\<close>.\<close>

theorem destroy_requires_slug_witness:
  "POST destroyChannel (Some (JObject [(''secret'', JString ''s'')])) [a_channel] =
     Inr (\<lparr>json = JObject [(''error'', JString ''Slug is required'')], statusCode = 400\<rparr>, [a_channel])
   \<and> POST destroyChannel (Some (JObject [(''slug'', JString [])])) [a_channel] =
     Inr (\<lparr>json = JObject [(''error'', JString ''Slug is required'')], statusCode = 400\<rparr>, [a_channel])"
  using destroy_requires_slug [of "JObject [(''secret'', JString ''s'')]" destroyChannel "[a_channel]"]
    destroy_requires_slug [of "JObject [(''slug'', JString [])]" destroyChannel "[a_channel]"]
  by simp

lemma find_destroy: "find (\<lambda>r. names_channel slug r \<and> P r) (destroy slug repo) = None"
  by (auto simp: find_None_iff destroy_def)

text \<open>
  C9: for every non-empty slug and every state of the directory, also one that has no
  such channel, a request naming the slug is answered with success, whatever else the
  body holds (no secret is read), and afterwards the slug resolves to \<open>NotFound\<close>.
\<close>

theorem destroy_needs_no_secret:
  assumes "slug \<noteq> []" and "map_of (rev kvs) ''slug'' = Some (JString slug)"
  shows "POST destroyChannel (Some (JObject kvs)) repo =
           Inr (\<lparr>json = JObject [(''success'', JBool True)], statusCode = 200\<rparr>, destroy slug repo) \<and>
         resolve now slug (destroy slug repo) = Inl NotFound"
  using assms by (simp add: POST_def resolve_def find_destroy)

text \<open>Instances: destroying an existing channel without its secret, and an absent one.\<close>

theorem destroy_needs_no_secret_witness:
  "POST destroyChannel (Some (JObject [(''slug'', JString ''abc'')])) [a_channel] =
     Inr (\<lparr>json = JObject [(''success'', JBool True)], statusCode = 200\<rparr>, []) \<and>
   POST destroyChannel (Some (JObject [(''slug'', JString ''abc'')])) [] =
     Inr (\<lparr>json = JObject [(''success'', JBool True)], statusCode = 200\<rparr>, []) \<and>
   resolve 5 ''abc'' [a_channel] = Inr ''peer-1'' \<and>
   resolve 5 ''abc'' [] = Inl NotFound"
  using destroy_needs_no_secret [of "''abc''" "[(''slug'', JString ''abc'')]" "[a_channel]" 5]
    destroy_needs_no_secret [of "''abc''" "[(''slug'', JString ''abc'')]" "[]" 5]
  by (simp add: destroy_def names_channel_def a_channel_def resolve_def)

section \<open>The password check\<close>

lemma catchBlock_unauthenticated:
  "scheduled cs = [] \<Longrightarrow> catchBlock cs = (cs1, acts) \<Longrightarrow>
   unauthenticated cs1 \<and> (\<forall>a\<in>set acts. \<not> is_chunk a)"
  by (cases "isOpen cs") (auto simp: catchBlock_def conn_close_def unauthenticated_def)

lemma onRequestInfo_unauthenticated:
  "password \<noteq> [] \<Longrightarrow> unauthenticated cs \<Longrightarrow> onRequestInfo files password info cs = (cs1, acts) \<Longrightarrow>
   unauthenticated cs1 \<and> (\<forall>a\<in>set acts. \<not> is_chunk a)"
  by (auto simp: onRequestInfo_def unauthenticated_def conn_send_def split: if_splits)

lemma onUsePassword_unauthenticated:
  "unauthenticated cs \<Longrightarrow> onUsePassword files password p cs = (cs1, acts) \<Longrightarrow>
   (\<forall>a\<in>set acts. \<not> is_chunk a) \<and>
   (unauthenticated cs1 \<or>
    (p = password \<and> (status (draft cs) = Authenticating \<or> status (draft cs) = InvalidPassword) \<and>
     status (draft cs1) = Ready))"
  by (auto simp: onUsePassword_def unauthenticated_def conn_send_def split: if_splits)

lemma onStart_unauthenticated:
  "unauthenticated cs \<Longrightarrow> onStart files fileName offset cs = (cs1, acts) \<Longrightarrow>
   unauthenticated cs1 \<and> (\<forall>a\<in>set acts. \<not> is_chunk a)"
proof (cases "validateOffset files fileName offset")
  case (Inl e)
  assume "unauthenticated cs" "onStart files fileName offset cs = (cs1, acts)"
  then show ?thesis using Inl catchBlock_unauthenticated [of cs cs1 acts]
    by (simp add: onStart_def unauthenticated_def)
next
  case (Inr f)
  assume "unauthenticated cs" "onStart files fileName offset cs = (cs1, acts)"
  then show ?thesis using Inr
    by (auto simp: onStart_def unauthenticated_def)
qed

lemma onPause_unauthenticated:
  "unauthenticated cs \<Longrightarrow> onPause cs = (cs1, acts) \<Longrightarrow>
   unauthenticated cs1 \<and> (\<forall>a\<in>set acts. \<not> is_chunk a)"
  by (auto simp: onPause_def unauthenticated_def)

lemma onDone_unauthenticated:
  "unauthenticated cs \<Longrightarrow> onDone cs = (cs1, acts) \<Longrightarrow>
   unauthenticated cs1 \<and> (\<forall>a\<in>set acts. \<not> is_chunk a)"
  by (auto simp: onDone_def unauthenticated_def)

lemma onData_unauthenticated:
  assumes "password \<noteq> []" and "unauthenticated cs"
    and "onData files password d cs = (cs1, acts)"
  shows "(\<forall>a\<in>set acts. \<not> is_chunk a) \<and>
         (unauthenticated cs1 \<or>
          (d = Encoded (UsePassword password) \<and>
           (status (draft cs) = Authenticating \<or> status (draft cs) = InvalidPassword) \<and>
           status (draft cs1) = Ready))"
proof (cases d)
  case Malformed
  then show ?thesis
    using assms catchBlock_unauthenticated [of cs cs1 acts]
    by (simp add: onData_def unauthenticated_def)
next
  case (Encoded m)
  show ?thesis
  proof (cases m)
    case (RequestInfo info)
    then show ?thesis using assms Encoded onRequestInfo_unauthenticated [of password cs files info cs1 acts]
      by (simp add: onData_def)
  next
    case (UsePassword p)
    then show ?thesis using assms Encoded onUsePassword_unauthenticated [of cs files password p cs1 acts]
      by (simp add: onData_def)
  next
    case (Start fileName offset)
    then show ?thesis using assms Encoded onStart_unauthenticated [of cs files fileName offset cs1 acts]
      by (simp add: onData_def)
  next
    case Pause
    then show ?thesis using assms Encoded onPause_unauthenticated [of cs cs1 acts]
      by (simp add: onData_def)
  next
    case DoneMsg
    then show ?thesis using assms Encoded onDone_unauthenticated [of cs cs1 acts]
      by (simp add: onData_def)
  qed (use assms Encoded in \<open>auto simp: onData_def\<close>)
qed

lemma step_unauthenticated:
  assumes "password \<noteq> []" and "unauthenticated cs"
    and "step files password ev cs = (cs1, acts)"
  shows "(\<forall>a\<in>set acts. \<not> is_chunk a) \<and>
         (unauthenticated cs1 \<or>
          (ev = Data (Encoded (UsePassword password)) \<and>
           (status (draft cs) = Authenticating \<or> status (draft cs) = InvalidPassword) \<and>
           status (draft cs1) = Ready))"
proof (cases ev)
  case (Data d)
  show ?thesis
  proof (cases "isOpen cs")
    case True
    then show ?thesis using assms Data onData_unauthenticated [of password cs files d cs1 acts]
      by simp
  next
    case False
    then show ?thesis using assms Data by auto
  qed
next
  case TransportClose
  then show ?thesis using assms
    by (cases "isOpen cs") (auto simp: unauthenticated_def)
next
  case (Timeout t)
  then show ?thesis using assms by (auto simp: unauthenticated_def)
qed

lemma run_unauthenticated:
  assumes "password \<noteq> []"
  shows "unauthenticated cs \<Longrightarrow> run files password evs cs = (cs2, acts) \<Longrightarrow>
         (unauthenticated cs2 \<and> (\<forall>a\<in>set acts. \<not> is_chunk a)) \<or>
         (\<exists>pre post cs1 acts1.
            evs = pre @ Data (Encoded (UsePassword password)) # post \<and>
            run files password pre cs = (cs1, acts1) \<and>
            (status (draft cs1) = Authenticating \<or> status (draft cs1) = InvalidPassword) \<and>
            status (draft (fst (step files password (Data (Encoded (UsePassword password))) cs1))) = Ready \<and>
            (\<forall>a\<in>set acts1. \<not> is_chunk a))"
proof (induction evs arbitrary: cs cs2 acts)
  case Nil
  then show ?case by simp
next
  case (Cons ev evs)
  obtain c1 a1 where s: "step files password ev cs = (c1, a1)"
    by (cases "step files password ev cs")
  obtain c2 a2 where r: "run files password evs c1 = (c2, a2)"
    by (cases "run files password evs c1")
  from Cons.prems(2) s r have eq: "cs2 = c2" "acts = a1 @ a2" by simp_all
  from step_unauthenticated [OF assms Cons.prems(1) s]
  have nc: "\<forall>a\<in>set a1. \<not> is_chunk a"
    and alt: "unauthenticated c1 \<or>
          (ev = Data (Encoded (UsePassword password)) \<and>
           (status (draft cs) = Authenticating \<or> status (draft cs) = InvalidPassword) \<and>
           status (draft c1) = Ready)" by simp_all
  from alt show ?case
  proof
    assume u: "unauthenticated c1"
    from Cons.IH [OF u r] show ?thesis
    proof
      assume "unauthenticated c2 \<and> (\<forall>a\<in>set a2. \<not> is_chunk a)"
      then have "unauthenticated cs2 \<and> (\<forall>a\<in>set acts. \<not> is_chunk a)"
        using eq nc by auto
      then show ?thesis by (rule disjI1)
    next
      assume "\<exists>pre post cs1 acts1.
            evs = pre @ Data (Encoded (UsePassword password)) # post \<and>
            run files password pre c1 = (cs1, acts1) \<and>
            (status (draft cs1) = Authenticating \<or> status (draft cs1) = InvalidPassword) \<and>
            status (draft (fst (step files password (Data (Encoded (UsePassword password))) cs1))) = Ready \<and>
            (\<forall>a\<in>set acts1. \<not> is_chunk a)"
      then obtain pre post cs1 acts1 where
        p: "evs = pre @ Data (Encoded (UsePassword password)) # post"
          "run files password pre c1 = (cs1, acts1)"
          "status (draft cs1) = Authenticating \<or> status (draft cs1) = InvalidPassword"
          "status (draft (fst (step files password (Data (Encoded (UsePassword password))) cs1))) = Ready"
          "\<forall>a\<in>set acts1. \<not> is_chunk a"
        by blast
      have "ev # evs = (ev # pre) @ Data (Encoded (UsePassword password)) # post"
        using p(1) by simp
      moreover have "run files password (ev # pre) cs = (cs1, a1 @ acts1)"
        using s p(2) by simp
      moreover have "\<forall>a\<in>set (a1 @ acts1). \<not> is_chunk a" using nc p(5) by auto
      ultimately have "\<exists>pre post cs1 acts1.
            ev # evs = pre @ Data (Encoded (UsePassword password)) # post \<and>
            run files password pre cs = (cs1, acts1) \<and>
            (status (draft cs1) = Authenticating \<or> status (draft cs1) = InvalidPassword) \<and>
            status (draft (fst (step files password (Data (Encoded (UsePassword password))) cs1))) = Ready \<and>
            (\<forall>a\<in>set acts1. \<not> is_chunk a)"
        using p(3,4) by (intro exI conjI)
      then show ?thesis by (rule disjI2)
    qed
  next
    assume a: "ev = Data (Encoded (UsePassword password)) \<and>
           (status (draft cs) = Authenticating \<or> status (draft cs) = InvalidPassword) \<and>
           status (draft c1) = Ready"
    have "\<exists>pre post cs1 acts1.
            ev # evs = pre @ Data (Encoded (UsePassword password)) # post \<and>
            run files password pre cs = (cs1, acts1) \<and>
            (status (draft cs1) = Authenticating \<or> status (draft cs1) = InvalidPassword) \<and>
            status (draft (fst (step files password (Data (Encoded (UsePassword password))) cs1))) = Ready \<and>
            (\<forall>a\<in>set acts1. \<not> is_chunk a)"
    proof (intro exI conjI)
      show "ev # evs = [] @ Data (Encoded (UsePassword password)) # evs" using a by simp
      show "run files password [] cs = (cs, [])" by simp
      show "status (draft cs) = Authenticating \<or> status (draft cs) = InvalidPassword"
        using a by simp
      show "status (draft (fst (step files password (Data (Encoded (UsePassword password))) cs))) = Ready"
        using a s by simp
      show "\<forall>a\<in>set []. \<not> is_chunk a" by simp
    qed
    then show ?thesis by (rule disjI2)
  qed
qed

text \<open>
  C4: with a password configured, whatever events a new connection goes through (data,
  transport close, timeouts), if a \<^verbatim>\<open>Chunk\<close> is ever sent to it then at some earlier point
  it was \<open>Authenticating\<close> or \<open>InvalidPassword\<close> and received a \<^verbatim>\<open>UsePassword\<close> whose
  candidate equals the configured password, which made it \<open>Ready\<close>; and no \<^verbatim>\<open>Chunk\<close> was
  sent before that point.
\<close>

theorem chunk_needs_password:
  assumes "password \<noteq> []"
    and "run files password evs (newConn conn files) = (cs, acts)"
    and "Send (Chunk fileName offset bytes final) \<in> set acts"
  shows "\<exists>pre post cs1 acts1.
            evs = pre @ Data (Encoded (UsePassword password)) # post \<and>
            run files password pre (newConn conn files) = (cs1, acts1) \<and>
            (status (draft cs1) = Authenticating \<or> status (draft cs1) = InvalidPassword) \<and>
            status (draft (fst (step files password (Data (Encoded (UsePassword password))) cs1))) = Ready \<and>
            (\<forall>a\<in>set acts1. \<not> is_chunk a)"
proof -
  have u: "unauthenticated (newConn conn files)"
    by (simp add: unauthenticated_def newConn_def)
  from run_unauthenticated [OF assms(1) u assms(2)] show ?thesis
  proof
    assume "unauthenticated cs \<and> (\<forall>a\<in>set acts. \<not> is_chunk a)"
    then have "\<not> is_chunk (Send (Chunk fileName offset bytes final))"
      using assms(3) by blast
    then have False by simp
    then show ?thesis ..
  qed
qed

text \<open>
  Instance: after \<^verbatim>\<open>RequestInfo\<close>, the right password and \<^verbatim>\<open>Start\<close>, the timeout sends the
  only chunk of an empty file.
\<close>

theorem chunk_needs_password_witness:
  "''pw'' \<noteq> [] \<and>
   Send (Chunk ''a.txt'' 0 [] True) \<in> set (snd (run [empty_file] ''pw''
      [Data (Encoded (RequestInfo a_client)), Data (Encoded (UsePassword ''pw'')),
       Data (Encoded (Start ''a.txt'' 0)), Timeout 1] (newConn 0 [empty_file]))) \<and>
   (\<exists>pre post cs1 acts1.
      [Data (Encoded (RequestInfo a_client)), Data (Encoded (UsePassword ''pw'')),
       Data (Encoded (Start ''a.txt'' 0)), Timeout 1]
        = pre @ Data (Encoded (UsePassword ''pw'')) # post \<and>
      run [empty_file] ''pw'' pre (newConn 0 [empty_file]) = (cs1, acts1) \<and>
      (status (draft cs1) = Authenticating \<or> status (draft cs1) = InvalidPassword) \<and>
      status (draft (fst (step [empty_file] ''pw'' (Data (Encoded (UsePassword ''pw''))) cs1))) = Ready)"
proof -
  let ?evs = "[Data (Encoded (RequestInfo a_client)), Data (Encoded (UsePassword ''pw'')),
       Data (Encoded (Start ''a.txt'' 0)), Timeout 1]"
  obtain cs acts where r: "run [empty_file] ''pw'' ?evs (newConn 0 [empty_file]) = (cs, acts)"
    by (cases "run [empty_file] ''pw'' ?evs (newConn 0 [empty_file])")
  have c: "Send (Chunk ''a.txt'' 0 [] True) \<in> set (snd (run [empty_file] ''pw'' ?evs (newConn 0 [empty_file])))"
    by code_simp
  then have c': "Send (Chunk ''a.txt'' 0 [] True) \<in> set acts" using r by simp
  have p: "''pw'' \<noteq> []" by simp
  from chunk_needs_password [OF p r c'] obtain pre post cs1 acts1 where
    w: "?evs = pre @ Data (Encoded (UsePassword ''pw'')) # post"
       "run [empty_file] ''pw'' pre (newConn 0 [empty_file]) = (cs1, acts1)"
       "status (draft cs1) = Authenticating \<or> status (draft cs1) = InvalidPassword"
       "status (draft (fst (step [empty_file] ''pw'' (Data (Encoded (UsePassword ''pw''))) cs1))) = Ready"
    by (elim exE conjE)
  show ?thesis
    by (intro conjI exI) (rule p c w)+
qed

section \<open>Chunk emission\<close>

text \<open>
  C1: once a \<^verbatim>\<open>Start{fileName, offset}\<close> with \<open>0 \<le> offset \<le> fileSize\<close> is accepted on a
  connection that has become \<open>Ready\<close> or \<open>Paused\<close>, the timeouts send, one per timeout, the
  chunks the recurrence describes: chunk number \<open>i\<close> starts at \<open>offset + i * CHUNK_SIZE\<close>,
  ends at \<open>min(fileSize, start + CHUNK_SIZE)\<close>, carries \<open>bytes[start, end)\<close> and is final iff
  \<open>end - start < CHUNK_SIZE\<close>; there are \<open>(fileSize - offset) div CHUNK_SIZE + 1\<close> of them and
  nothing is sent after the last. With \<open>CHUNK_SIZE = 131072\<close>, a file of 300000 bytes
  started at 0 gives exactly three chunks of sizes 131072, 131072, 37856 with final flags
  false, false, true.
\<close>

theorem chunk_emission:
  assumes "run files password evs (newConn conn files) = (cs, acts0)"
    and "status (draft cs) = Ready \<or> status (draft cs) = Paused"
    and "validateOffset files fileName offset = Inr file" and "0 \<le> offset"
  shows "\<exists>cs1. step files password (Data (Encoded (Start fileName offset))) cs = (cs1, []) \<and>
     (\<forall>k. sent (snd (timeouts files password k cs1)) =
           take k (map (spec_chunk fileName file offset)
                     [0..<nat ((file_size file - offset) div MAX_CHUNK_SIZE) + 1])) \<and>
     MAX_CHUNK_SIZE = 131072 \<and>
     (file_size file = 300000 \<and> offset = 0 \<longrightarrow>
        (\<forall>k. 3 \<le> k \<longrightarrow>
           map (\<lambda>m. length (chunk_bytes m)) (sent (snd (timeouts files password k cs1)))
             = [131072, 131072, 37856] \<and>
           map chunk_is_final (sent (snd (timeouts files password k cs1)))
             = [False, False, True]))"
proof -
  have "isOpen cs" "scheduled cs = []"
    using reachable_idle [OF assms(1,2)] by simp_all
  from idle_start_emits [OF assms(3,4) this(1) assms(2) this(2)] show ?thesis .
qed

text \<open>Instance: the file of 300000 bytes, from a connection that is \<open>Ready\<close>.\<close>

theorem chunk_emission_witness:
  "validateOffset [big_file] ''b.bin'' 0 = Inr big_file \<and> file_size big_file = 300000 \<and>
   isOpen (ready_conn [big_file]) \<and> status (draft (ready_conn [big_file])) = Ready \<and>
   scheduled (ready_conn [big_file]) = [] \<and>
   (\<exists>cs1. step [big_file] [] (Data (Encoded (Start ''b.bin'' 0))) (ready_conn [big_file]) = (cs1, []) \<and>
      map (\<lambda>m. length (chunk_bytes m)) (sent (snd (timeouts [big_file] [] 3 cs1)))
        = [131072, 131072, 37856] \<and>
      map chunk_is_final (sent (snd (timeouts [big_file] [] 3 cs1))) = [False, False, True] \<and>
      map chunk_offset (sent (snd (timeouts [big_file] [] 3 cs1))) = [0, 131072, 262144])"
proof -
  have v: "validateOffset [big_file] ''b.bin'' 0 = Inr big_file"
    by (simp add: validateOffset_def getFileName_def big_file_def file_size_def)
  have z: "file_size big_file = 300000" by (simp add: big_file_def file_size_def)
  have r: "isOpen (ready_conn [big_file])" "status (draft (ready_conn [big_file])) = Ready"
    "scheduled (ready_conn [big_file]) = []"
    by (simp_all add: ready_conn_def newConn_def onData_def onRequestInfo_def)
  have r': "status (draft (ready_conn [big_file])) = Ready \<or> status (draft (ready_conn [big_file])) = Paused"
    using r(2) by simp
  have n: "(0::int) \<le> 0" by simp
  have e: "run [big_file] [] [Data (Encoded (RequestInfo a_client))] (newConn 0 [big_file])
      = (ready_conn [big_file],
         snd (step [big_file] [] (Data (Encoded (RequestInfo a_client))) (newConn 0 [big_file])))"
    by (simp add: run_single ready_conn_def)
  from chunk_emission [OF e r' v n] obtain cs1 where
    s: "step [big_file] [] (Data (Encoded (Start ''b.bin'' 0))) (ready_conn [big_file]) = (cs1, [])"
    and g: "\<forall>k. sent (snd (timeouts [big_file] [] k cs1)) =
           take k (map (spec_chunk ''b.bin'' big_file 0)
                     [0..<nat ((file_size big_file - 0) div MAX_CHUNK_SIZE) + 1])"
    and q: "file_size big_file = 300000 \<and> (0::int) = 0 \<longrightarrow>
        (\<forall>k. 3 \<le> k \<longrightarrow>
           map (\<lambda>m. length (chunk_bytes m)) (sent (snd (timeouts [big_file] [] k cs1)))
             = [131072, 131072, 37856] \<and>
           map chunk_is_final (sent (snd (timeouts [big_file] [] k cs1)))
             = [False, False, True])"
    by (elim exE conjE)
  have q3: "map (\<lambda>m. length (chunk_bytes m)) (sent (snd (timeouts [big_file] [] 3 cs1)))
             = [131072, 131072, 37856]"
     "map chunk_is_final (sent (snd (timeouts [big_file] [] 3 cs1))) = [False, False, True]"
    using q z by simp_all
  have o: "map chunk_offset (sent (snd (timeouts [big_file] [] 3 cs1))) = [0, 131072, 262144]"
  proof -
    have "sent (snd (timeouts [big_file] [] 3 cs1)) =
          take 3 [spec_chunk ''b.bin'' big_file 0 0, spec_chunk ''b.bin'' big_file 0 1,
                  spec_chunk ''b.bin'' big_file 0 2]"
      using g three_chunks [OF z, of "''b.bin''"] by (simp only:)
    then show ?thesis
      by (simp add: spec_chunk_def MAX_CHUNK_SIZE_def Let_def)
  qed
  show ?thesis
    by (intro conjI exI) (rule v z r s q3 o)+
qed

section \<open>Reconstruction, pause and resume\<close>

text \<open>
  C2: after an accepted \<^verbatim>\<open>Start{fileName, offset}\<close> (with \<open>offset = 0\<close>: the whole file),
  the chunks sent up to and including the final one have ascending offsets, their
  payloads concatenate to the file's bytes from \<open>offset\<close> on, and \<open>final\<close> is set on the
  last chunk only. If instead \<^verbatim>\<open>Pause\<close> arrives after \<open>k\<close> chunks, while \<open>Uploading\<close>, the
  connection is \<open>Paused\<close> and no further timeout sends anything; a following
  \<^verbatim>\<open>Start{fileName, a}\<close> with \<open>a\<close> between the first offset and the offset reached resumes
  the same file: the first chunk starts at \<open>a\<close>, no chunk starts below \<open>a\<close>, the chunks
  again form a complete stream of the bytes from \<open>a\<close> on, and the bytes received below
  \<open>a\<close> followed by the resumed payloads are exactly the file's bytes from \<open>offset\<close> on.
\<close>

theorem chunks_reconstruct_file:
  assumes "run files password evs (newConn conn files) = (cs, acts0)"
    and "status (draft cs) = Ready \<or> status (draft cs) = Paused"
    and "validateOffset files fileName offset = Inr file" and "0 \<le> offset"
  shows "\<exists>cs1. step files password (Data (Encoded (Start fileName offset))) cs = (cs1, []) \<and>
     (\<forall>k. nat ((file_size file - offset) div MAX_CHUNK_SIZE) + 1 \<le> k \<longrightarrow>
        complete_stream (drop (nat offset) (content file))
          (sent (snd (timeouts files password k cs1)))) \<and>
     (\<forall>k a. k < nat ((file_size file - offset) div MAX_CHUNK_SIZE) + 1 \<and>
            offset \<le> a \<and> a \<le> offset + int k * MAX_CHUNK_SIZE \<longrightarrow>
        (\<exists>cs2 before cs3 cs4.
           timeouts files password k cs1 = (cs2, before) \<and>
           status (draft cs2) = Uploading \<and>
           step files password (Data (Encoded Pause)) cs2 = (cs3, []) \<and>
           status (draft cs3) = Paused \<and>
           (\<forall>j. timeouts files password j cs3 = (cs3, [])) \<and>
           step files password (Data (Encoded (Start fileName a))) cs3 = (cs4, []) \<and>
           status (draft cs4) = Uploading \<and>
           (\<forall>j. nat ((file_size file - offset) div MAX_CHUNK_SIZE) + 1 \<le> j \<longrightarrow>
              complete_stream (drop (nat a) (content file))
                (sent (snd (timeouts files password j cs4))) \<and>
              chunk_offset (hd (sent (snd (timeouts files password j cs4)))) = a \<and>
              (\<forall>m\<in>set (sent (snd (timeouts files password j cs4))). a \<le> chunk_offset m) \<and>
              take (nat (a - offset)) (concat (map chunk_bytes (sent before))) @
                concat (map chunk_bytes (sent (snd (timeouts files password j cs4))))
                = drop (nat offset) (content file))))"
proof -
  have "isOpen cs" "scheduled cs = []"
    using reachable_idle [OF assms(1,2)] by simp_all
  from idle_start_reconstructs [OF assms(3,4) this(1) assms(2) this(2)] show ?thesis .
qed

text \<open>
  Instance: the file of 300000 bytes, paused after the first chunk and resumed at
  offset 100000.
\<close>

theorem chunks_reconstruct_file_witness:
  "validateOffset [big_file] ''b.bin'' 0 = Inr big_file \<and>
   isOpen (ready_conn [big_file]) \<and> status (draft (ready_conn [big_file])) = Ready \<and>
   scheduled (ready_conn [big_file]) = [] \<and>
   (\<exists>cs1. step [big_file] [] (Data (Encoded (Start ''b.bin'' 0))) (ready_conn [big_file]) = (cs1, []) \<and>
      complete_stream (content big_file) (sent (snd (timeouts [big_file] [] 3 cs1))) \<and>
      (\<exists>cs2 before cs3 cs4.
         timeouts [big_file] [] 1 cs1 = (cs2, before) \<and>
         step [big_file] [] (Data (Encoded Pause)) cs2 = (cs3, []) \<and>
         status (draft cs3) = Paused \<and>
         step [big_file] [] (Data (Encoded (Start ''b.bin'' 100000))) cs3 = (cs4, []) \<and>
         chunk_offset (hd (sent (snd (timeouts [big_file] [] 3 cs4)))) = 100000 \<and>
         take 100000 (concat (map chunk_bytes (sent before))) @
           concat (map chunk_bytes (sent (snd (timeouts [big_file] [] 3 cs4))))
           = content big_file))"
proof -
  have v: "validateOffset [big_file] ''b.bin'' 0 = Inr big_file"
    by (simp add: validateOffset_def getFileName_def big_file_def file_size_def)
  have z: "file_size big_file = 300000" by (simp add: big_file_def file_size_def)
  have r: "isOpen (ready_conn [big_file])" "status (draft (ready_conn [big_file])) = Ready"
    "scheduled (ready_conn [big_file]) = []"
    by (simp_all add: ready_conn_def newConn_def onData_def onRequestInfo_def)
  have r': "status (draft (ready_conn [big_file])) = Ready \<or> status (draft (ready_conn [big_file])) = Paused"
    using r(2) by simp
  have n0: "(0::int) \<le> 0" by simp
  have n: "nat ((file_size big_file - 0) div MAX_CHUNK_SIZE) + 1 = 3"
    using z by (simp add: MAX_CHUNK_SIZE_def)
  have e: "run [big_file] [] [Data (Encoded (RequestInfo a_client))] (newConn 0 [big_file])
      = (ready_conn [big_file],
         snd (step [big_file] [] (Data (Encoded (RequestInfo a_client))) (newConn 0 [big_file])))"
    by (simp add: run_single ready_conn_def)
  from chunks_reconstruct_file [OF e r' v n0] obtain cs1 where
    s: "step [big_file] [] (Data (Encoded (Start ''b.bin'' 0))) (ready_conn [big_file]) = (cs1, [])"
    and p1: "\<forall>k. nat ((file_size big_file - 0) div MAX_CHUNK_SIZE) + 1 \<le> k \<longrightarrow>
        complete_stream (drop (nat 0) (content big_file))
          (sent (snd (timeouts [big_file] [] k cs1)))"
    and p2: "\<forall>k a. k < nat ((file_size big_file - 0) div MAX_CHUNK_SIZE) + 1 \<and>
            0 \<le> a \<and> a \<le> 0 + int k * MAX_CHUNK_SIZE \<longrightarrow>
        (\<exists>cs2 before cs3 cs4.
           timeouts [big_file] [] k cs1 = (cs2, before) \<and>
           status (draft cs2) = Uploading \<and>
           step [big_file] [] (Data (Encoded Pause)) cs2 = (cs3, []) \<and>
           status (draft cs3) = Paused \<and>
           (\<forall>j. timeouts [big_file] [] j cs3 = (cs3, [])) \<and>
           step [big_file] [] (Data (Encoded (Start ''b.bin'' a))) cs3 = (cs4, []) \<and>
           status (draft cs4) = Uploading \<and>
           (\<forall>j. nat ((file_size big_file - 0) div MAX_CHUNK_SIZE) + 1 \<le> j \<longrightarrow>
              complete_stream (drop (nat a) (content big_file))
                (sent (snd (timeouts [big_file] [] j cs4))) \<and>
              chunk_offset (hd (sent (snd (timeouts [big_file] [] j cs4)))) = a \<and>
              (\<forall>m\<in>set (sent (snd (timeouts [big_file] [] j cs4))). a \<le> chunk_offset m) \<and>
              take (nat (a - 0)) (concat (map chunk_bytes (sent before))) @
                concat (map chunk_bytes (sent (snd (timeouts [big_file] [] j cs4))))
                = drop (nat 0) (content big_file)))"
    by (elim exE conjE)
  have c1: "complete_stream (content big_file) (sent (snd (timeouts [big_file] [] 3 cs1)))"
    using p1 [rule_format, of 3] n by simp
  have "1 < nat ((file_size big_file - 0) div MAX_CHUNK_SIZE) + 1 \<and>
            (0::int) \<le> 100000 \<and> (100000::int) \<le> 0 + int 1 * MAX_CHUNK_SIZE"
    using n by (simp add: MAX_CHUNK_SIZE_def)
  from p2 [rule_format, OF this] obtain cs2 before cs3 cs4 where
    w: "timeouts [big_file] [] 1 cs1 = (cs2, before)"
       "step [big_file] [] (Data (Encoded Pause)) cs2 = (cs3, [])"
       "status (draft cs3) = Paused"
       "step [big_file] [] (Data (Encoded (Start ''b.bin'' 100000))) cs3 = (cs4, [])"
    and f: "\<forall>j. nat ((file_size big_file - 0) div MAX_CHUNK_SIZE) + 1 \<le> j \<longrightarrow>
              complete_stream (drop (nat 100000) (content big_file))
                (sent (snd (timeouts [big_file] [] j cs4))) \<and>
              chunk_offset (hd (sent (snd (timeouts [big_file] [] j cs4)))) = 100000 \<and>
              (\<forall>m\<in>set (sent (snd (timeouts [big_file] [] j cs4))). 100000 \<le> chunk_offset m) \<and>
              take (nat (100000 - 0)) (concat (map chunk_bytes (sent before))) @
                concat (map chunk_bytes (sent (snd (timeouts [big_file] [] j cs4))))
                = drop (nat 0) (content big_file)"
    by (elim exE conjE)
  have g: "chunk_offset (hd (sent (snd (timeouts [big_file] [] 3 cs4)))) = 100000"
     "take 100000 (concat (map chunk_bytes (sent before))) @
           concat (map chunk_bytes (sent (snd (timeouts [big_file] [] 3 cs4))))
           = content big_file"
    using f [rule_format, of 3] n by simp_all
  show ?thesis
    by (intro conjI exI) (rule v r s c1 w g)+
qed

section \<open>The report connection\<close>

lemma on_handle_step_closed:
  assumes "\<forall>c\<in>set s. dataConnection (draft c) \<in> H \<longrightarrow> \<not> isOpen c"
    and "on_handle h (step files password ev) s = (s1, acts)"
  shows "(\<forall>c\<in>set s1. dataConnection (draft c) \<in> H \<longrightarrow> \<not> isOpen c) \<and>
         (\<forall>h'\<in>H. \<forall>a. To h' a \<notin> set acts)"
proof -
  have s1: "s1 = map (\<lambda>c. if dataConnection (draft c) = h then fst (step files password ev c) else c) s"
    and acts: "acts = concat (map (\<lambda>c. if dataConnection (draft c) = h
                   then map (To h) (snd (step files password ev c)) else []) s)"
    using assms(2) by (simp_all add: on_handle_def)
  have a: "\<not> isOpen c'" if "c' \<in> set s1" "dataConnection (draft c') \<in> H" for c'
  proof -
    from that(1) obtain c where c: "c \<in> set s"
      "c' = (if dataConnection (draft c) = h then fst (step files password ev c) else c)"
      unfolding s1 by auto
    have "dataConnection (draft c') = dataConnection (draft c)"
      using c(2) by (simp add: step_handle)
    then have "\<not> isOpen c" using assms(1) c(1) that(2) by simp
    then show ?thesis using c(2) step_closed [of c files password ev] by simp
  qed
  have b: "To h' x \<notin> set acts" if "h' \<in> H" for h' x
  proof
    assume "To h' x \<in> set acts"
    then obtain c where c: "c \<in> set s" "dataConnection (draft c) = h"
      "To h' x \<in> set (map (To h) (snd (step files password ev c)))"
      unfolding acts by (auto split: if_splits)
    then have "h' = h" "snd (step files password ev c) \<noteq> []" by auto
    moreover have "\<not> isOpen c" using assms(1) c(1,2) that \<open>h' = h\<close> by simp
    ultimately show False using step_closed [of c files password ev] by simp
  qed
  show ?thesis using a b by blast
qed

lemma on_handle_noop:
  assumes "\<forall>c\<in>set s. dataConnection (draft c) = h \<longrightarrow> f c = (c, [])"
  shows "on_handle h f s = (s, [])"
proof -
  have "map (\<lambda>c. if dataConnection (draft c) = h then fst (f c) else c) s = s"
    using assms by (intro map_idI) auto
  moreover have "concat (map (\<lambda>c. if dataConnection (draft c) = h
                    then map (To h) (snd (f c)) else []) s) = []"
    using assms by auto
  ultimately show ?thesis by (simp add: on_handle_def)
qed

lemma broadcastReport_closed:
  "\<forall>c\<in>set s. dataConnection (draft c) \<in> dataConnection ` set cl \<longrightarrow> \<not> isOpen c \<Longrightarrow>
   broadcastReport cl s = (s, [])"
proof (induction cl)
  case Nil
  then show ?case by simp
next
  case (Cons x xs)
  have c: "\<forall>c\<in>set s. dataConnection (draft c) = dataConnection x \<longrightarrow> \<not> isOpen c"
    using Cons.prems by simp
  have 1: "on_handle (dataConnection x) (\<lambda>y. (y, conn_send Report y)) s = (s, [])"
    using c by (intro on_handle_noop) (simp add: conn_send_def)
  have 2: "on_handle (dataConnection x) conn_close s = (s, [])"
    using c by (intro on_handle_noop) (simp add: conn_close_def)
  have 3: "broadcastReport xs s = (s, [])"
    using Cons.prems by (intro Cons.IH) simp
  show ?case by (simp add: 1 2 3)
qed

lemma session_inv_iff:
  "session_inv s \<longleftrightarrow>
     (\<forall>c\<in>set (conns s). dataConnection (draft c) < nextHandle s \<and>
        (dataConnection (draft c) \<in> dataConnection ` set (captured s) \<longrightarrow> \<not> isOpen c)) \<and>
     (\<forall>r\<in>set (captured s). dataConnection r < nextHandle s)"
  by (simp add: session_inv_def list_all_iff)

lemma mount_inv: "session_inv mount"
  by (simp add: session_inv_iff mount_def)

lemma report_only_navigates:
  assumes "session_inv s"
  shows "session_step files password (Connection (Some ''report'')) s =
           (s\<lparr>nextHandle := Suc (nextHandle s)\<rparr>, [Navigate ''/reported''])"
proof -
  have "broadcastReport (captured s) (conns s) = (conns s, [])"
    using assms by (intro broadcastReport_closed) (simp add: session_inv_iff)
  then show ?thesis by (simp add: listener_def)
qed

lemma on_handle_handles:
  assumes "on_handle h (step files password ev) cs = (cs1, acts)" and "c' \<in> set cs1"
  shows "\<exists>c\<in>set cs. dataConnection (draft c') = dataConnection (draft c)"
proof -
  have "cs1 = map (\<lambda>c. if dataConnection (draft c) = h then fst (step files password ev c) else c) cs"
    using assms(1) by (simp add: on_handle_def)
  then obtain c where "c \<in> set cs"
    "c' = (if dataConnection (draft c) = h then fst (step files password ev c) else c)"
    using assms(2) by auto
  then show ?thesis by (auto simp: step_handle)
qed

lemma session_step_inv:
  assumes "session_inv s"
  shows "session_inv (fst (session_step files password ev s))"
proof (cases ev)
  case (Connection metadataType)
  show ?thesis
  proof (cases "metadataType = Some ''report''")
    case True
    then show ?thesis
      using assms report_only_navigates [OF assms, of files password] Connection
      by (auto simp: session_inv_iff less_Suc_eq)
  next
    case False
    then show ?thesis using assms Connection
      by (auto simp: session_inv_iff listener_def newConn_def less_Suc_eq)
  qed
next
  case (On h e)
  obtain cs1 acts where o: "on_handle h (step files password e) (conns s) = (cs1, acts)"
    by (cases "on_handle h (step files password e) (conns s)")
  have closed: "\<forall>c\<in>set cs1. dataConnection (draft c) \<in> dataConnection ` set (captured s) \<longrightarrow> \<not> isOpen c"
    using on_handle_step_closed [OF _ o, of "dataConnection ` set (captured s)"] assms
    by (simp add: session_inv_iff)
  have bound: "\<forall>c\<in>set cs1. dataConnection (draft c) < nextHandle s"
  proof
    fix c' assume "c' \<in> set cs1"
    from on_handle_handles [OF o this] obtain c where
      "c \<in> set (conns s)" "dataConnection (draft c') = dataConnection (draft c)" by blast
    then show "dataConnection (draft c') < nextHandle s"
      using assms by (simp add: session_inv_iff)
  qed
  show ?thesis using On o closed bound assms by (simp add: session_inv_iff)
next
  case EffectRerun
  then show ?thesis using assms
    by (auto simp: session_inv_iff effect_cleanup_def)
qed

lemma session_run_inv:
  "session_inv s \<Longrightarrow> session_inv (fst (session_run files password evs s))"
proof (induction evs arbitrary: s)
  case Nil
  then show ?case by simp
next
  case (Cons ev evs)
  from Cons.IH [OF session_step_inv [OF Cons.prems]] show ?case
    by (simp add: split_beta)
qed

lemma session_run_append:
  "session_run files password (xs @ ys) s =
     (fst (session_run files password ys (fst (session_run files password xs s))),
      snd (session_run files password xs s) @
        snd (session_run files password ys (fst (session_run files password xs s))))"
  by (induction xs arbitrary: s) (simp_all add: split_beta)

lemma session_run_single:
  "session_run files password [ev] s = session_step files password ev s"
  by (simp add: split_beta)

text \<open>
  C5, as the code has it: whatever connections, connection events and effect re-runs a
  session has gone through since the hook was mounted, the array the listener iterates
  over holds no open connection (it is empty after mount, and after a re-run it holds
  only connections the cleanup has closed). So when a report connection arrives, the
  listener sends no \<^verbatim>\<open>Report\<close> and closes no connection: the state of every connection is
  as before and the only thing done is the redirect to \<open>/reported\<close>.
\<close>

theorem report_broadcast_reaches_nobody:
  assumes "session_run files password evs mount = (s, acts0)"
  shows "session_step files password (Connection (Some ''report'')) s =
           (s\<lparr>nextHandle := Suc (nextHandle s)\<rparr>, [Navigate ''/reported''])"
proof -
  have "session_inv s"
    using session_run_inv [OF mount_inv, of files password evs] assms by simp
  then show ?thesis by (rule report_only_navigates)
qed

text \<open>
  The failing input: a downloader connects (handle 0), asks for the catalog and starts
  the transfer of \<open>a.txt\<close>; then a report connection arrives. Connection 0 is sent no
  \<^verbatim>\<open>Report\<close> and is not closed: it is still open and \<open>Uploading\<close>, with its chunk timeout
  scheduled.
\<close>

theorem report_broadcast_reaches_nobody_witness:
  "snd (session_run [empty_file] []
          [Connection None, On 0 (Data (Encoded (RequestInfo a_client))),
           On 0 (Data (Encoded (Start ''a.txt'' 0))), Connection (Some ''report'')] mount)
     = [To 0 (Send (Info (fileInfo [empty_file]))), Navigate ''/reported''] \<and>
   map (\<lambda>c. (dataConnection (draft c), isOpen c, status (draft c), map fst (scheduled c)))
     (conns (fst (session_run [empty_file] []
          [Connection None, On 0 (Data (Encoded (RequestInfo a_client))),
           On 0 (Data (Encoded (Start ''a.txt'' 0))), Connection (Some ''report'')] mount)))
     = [(0, True, Uploading, [1])]"
proof -
  let ?evs = "[Connection None, On 0 (Data (Encoded (RequestInfo a_client))),
           On 0 (Data (Encoded (Start ''a.txt'' 0)))]"
  obtain s acts0 where r: "session_run [empty_file] [] ?evs mount = (s, acts0)"
    by (cases "session_run [empty_file] [] ?evs mount")
  have before: "acts0 = [To 0 (Send (Info (fileInfo [empty_file])))]"
    "map (\<lambda>c. (dataConnection (draft c), isOpen c, status (draft c), map fst (scheduled c)))
       (conns s) = [(0, True, Uploading, [1])]"
  proof -
    have "snd (session_run [empty_file] [] ?evs mount) = [To 0 (Send (Info (fileInfo [empty_file])))]"
      by code_simp
    then show "acts0 = [To 0 (Send (Info (fileInfo [empty_file])))]" using r by simp
    have "map (\<lambda>c. (dataConnection (draft c), isOpen c, status (draft c), map fst (scheduled c)))
       (conns (fst (session_run [empty_file] [] ?evs mount))) = [(0, True, Uploading, [1])]"
      by code_simp
    then show "map (\<lambda>c. (dataConnection (draft c), isOpen c, status (draft c), map fst (scheduled c)))
       (conns s) = [(0, True, Uploading, [1])]" using r by simp
  qed
  have "[Connection None, On 0 (Data (Encoded (RequestInfo a_client))),
           On 0 (Data (Encoded (Start ''a.txt'' 0))), Connection (Some ''report'')]
        = ?evs @ [Connection (Some ''report'')]"
    by simp
  then have app: "session_run [empty_file] []
          [Connection None, On 0 (Data (Encoded (RequestInfo a_client))),
           On 0 (Data (Encoded (Start ''a.txt'' 0))), Connection (Some ''report'')] mount =
        (fst (session_step [empty_file] [] (Connection (Some ''report'')) s),
         acts0 @ snd (session_step [empty_file] [] (Connection (Some ''report'')) s))"
    by (simp only: session_run_append r fst_conv snd_conv session_run_single)
  show ?thesis
    unfolding app report_broadcast_reaches_nobody [OF r] fst_conv snd_conv
    using before by simp
qed

end
